theory Spec2Isabelle
  imports Main "HOL-Library.Word" "HOL-Library.Monad_Syntax"
begin

section \<open>Nodes, the store and the tree handle\<close>

text \<open>
  \<^verbatim>\<open>tree.hh\<close> is an intrusive pointer graph.  A pointer is an address (a natural number,
  \<open>0\<close> the null pointer); the store maps the allocated addresses to node records and
  hands out fresh addresses.  \<^verbatim>\<open>size_t\<close> is a 64-bit word.  The header defines
  \<^verbatim>\<open>TREE_HH_EXTRA\<close> itself when it is not defined, so the bookkeeping fields and branches
  are always compiled in; they are modelled throughout.

  Every operation returns an \<open>option\<close>: \<open>None\<close> is a run without a defined result (a read
  or write through a null or dangling pointer, or a loop that does not end).  A failing
  \<^verbatim>\<open>assert\<close> and a thrown \<^verbatim>\<open>std::range_error\<close> are values of type \<open>error\<close>.
\<close>

type_synonym size_t = "64 word"

record 'a tree_node =
  parent :: nat
  first_child :: nat
  last_child :: nat
  prev_sibling :: nat
  next_sibling :: nat
  data :: 'a
  count :: size_t
  count_expanded :: size_t
  count_expandable :: size_t
  expanded :: bool
  visible :: bool

record 'a store =
  cells :: "nat \<Rightarrow> 'a tree_node option"
  fresh :: nat

record tree =
  head :: nat
  feet :: nat

record iterator_base =
  node :: nat
  skip_current_children :: bool

datatype error = AssertFail | RangeError

definition empty_store :: "'a store" where
  "empty_store = \<lparr>cells = (\<lambda>_. None), fresh = 1\<rparr>"

definition node_at :: "'a store \<Rightarrow> nat \<Rightarrow> 'a tree_node option" where
  "node_at s p = (if p = 0 then None else cells s p)"

text \<open>Writing a whole node at an address, and a write through a pointer: \<open>upd p f s\<close> changes
  the node at \<open>p\<close> by \<open>f\<close> and has no defined result when \<open>p\<close> is null or not allocated.\<close>

definition put :: "nat \<Rightarrow> 'a tree_node \<Rightarrow> 'a store \<Rightarrow> 'a store" where
  "put p v s = s\<lparr>cells := (cells s)(p \<mapsto> v)\<rparr>"

definition upd :: "nat \<Rightarrow> ('a tree_node \<Rightarrow> 'a tree_node) \<Rightarrow> 'a store \<Rightarrow> 'a store option" where
  "upd p f s = (case node_at s p of None \<Rightarrow> None | Some nd \<Rightarrow> Some (put p (f nd) s))"

text \<open>The constructors \<^verbatim>\<open>tree_node_()\<close> and \<^verbatim>\<open>tree_node_(const T&)\<close>; the first leaves
  \<^verbatim>\<open>data\<close> default-constructed, which is the value \<open>val\<close> passed by the caller here.\<close>

definition tree_node_new :: "'a \<Rightarrow> 'a tree_node" where
  "tree_node_new val = \<lparr>parent = 0, first_child = 0, last_child = 0, prev_sibling = 0,
     next_sibling = 0, data = val, count = 0, count_expanded = 0, count_expandable = 0,
     expanded = False, visible = False\<rparr>"

text \<open>\<^verbatim>\<open>alloc_.allocate(1, 0)\<close> followed by \<^verbatim>\<open>alloc_.construct(tmp, x)\<close>.\<close>

definition new_node :: "'a \<Rightarrow> 'a store \<Rightarrow> nat \<times> 'a store" where
  "new_node val s = (fresh s, put (fresh s) (tree_node_new val) (s\<lparr>fresh := Suc (fresh s)\<rparr>))"

text \<open>\<^verbatim>\<open>alloc_.destroy(p); alloc_.deallocate(p, 1)\<close>.\<close>

definition delete_node :: "nat \<Rightarrow> 'a store \<Rightarrow> 'a store option" where
  "delete_node p s = (case node_at s p of None \<Rightarrow> None
                      | Some nd \<Rightarrow> Some (s\<lparr>cells := (cells s)(p := None)\<rparr>))"

section \<open>Construction\<close>

definition head_initialise :: "'a \<Rightarrow> 'a store \<Rightarrow> (tree \<times> 'a store) option" where
  "head_initialise d s = do {
     let (h, s) = new_node d s;
     let (f, s) = new_node d s;
     s \<leftarrow> upd h (\<lambda>n. n\<lparr>parent := 0, first_child := 0, last_child := 0,
                        prev_sibling := 0, next_sibling := f\<rparr>) s;
     s \<leftarrow> upd f (\<lambda>n. n\<lparr>parent := 0, first_child := 0, last_child := 0,
                        prev_sibling := h, next_sibling := 0\<rparr>) s;
     s \<leftarrow> upd h (\<lambda>n. n\<lparr>count := 0, count_expanded := 0, count_expandable := 0,
                        expanded := True, visible := True\<rparr>) s;
     s \<leftarrow> upd f (\<lambda>n. n\<lparr>count := 0, count_expanded := 0, count_expandable := 0,
                        expanded := False, visible := True\<rparr>) s;
     Some (\<lparr>head = h, feet = f\<rparr>, s)
   }"

text \<open>The bookkeeping loop that \<^verbatim>\<open>insert\<close> and \<^verbatim>\<open>append_child\<close> run after linking the
  new node: every ancestor's \<^verbatim>\<open>count\<close> and \<^verbatim>\<open>count_expandable\<close> grow by one, and
  \<^verbatim>\<open>count_expanded\<close> grows while all ancestors so far are expanded.\<close>

partial_function (option) count_up ::
  "nat \<Rightarrow> bool \<Rightarrow> 'a store \<Rightarrow> (bool \<times> 'a store) option" where
  "count_up p parent_expanded s =
     (if p = 0 then Some (parent_expanded, s)
      else do {
        nd \<leftarrow> node_at s p;
        let parent_expanded = (parent_expanded \<and> expanded nd);
        s \<leftarrow> (if parent_expanded
              then upd p (\<lambda>n. n\<lparr>count_expanded := count_expanded n + 1\<rparr>) s
              else Some s);
        s \<leftarrow> upd p (\<lambda>n. n\<lparr>count := count n + 1\<rparr>) s;
        s \<leftarrow> upd p (\<lambda>n. n\<lparr>count_expandable := count_expandable n + 1\<rparr>) s;
        count_up (parent nd) parent_expanded s
      })"

declare count_up.simps [code]

definition count_head :: "tree \<Rightarrow> bool \<Rightarrow> 'a store \<Rightarrow> 'a store option" where
  "count_head t parent_expanded s = do {
     s \<leftarrow> (if parent_expanded
           then upd (head t) (\<lambda>n. n\<lparr>count_expanded := count_expanded n + 1\<rparr>) s
           else Some s);
     s \<leftarrow> upd (head t) (\<lambda>n. n\<lparr>count := count n + 1\<rparr>) s;
     upd (head t) (\<lambda>n. n\<lparr>count_expandable := count_expandable n + 1\<rparr>) s
   }"

text \<open>\<^verbatim>\<open>insert(iter position, const T& x)\<close>: a new node before \<open>position\<close>.\<close>

definition insert_before ::
  "tree \<Rightarrow> nat \<Rightarrow> 'a \<Rightarrow> 'a store \<Rightarrow> (error + nat \<times> 'a store) option" where
  "insert_before t position x s =
     (let position = (if position = 0 then feet t else position) in
      if position = head t then Some (Inl AssertFail)
      else do {
        let (tmp, s) = new_node x s;
        hn \<leftarrow> node_at s (head t);
        s \<leftarrow> upd tmp (\<lambda>n. n\<lparr>expanded := expanded hn, visible := visible hn\<rparr>) s;
        s \<leftarrow> upd tmp (\<lambda>n. n\<lparr>first_child := 0, last_child := 0\<rparr>) s;
        pn \<leftarrow> node_at s position;
        s \<leftarrow> upd tmp (\<lambda>n. n\<lparr>parent := parent pn, next_sibling := position,
                             prev_sibling := prev_sibling pn\<rparr>) s;
        s \<leftarrow> upd position (\<lambda>n. n\<lparr>prev_sibling := tmp\<rparr>) s;
        s \<leftarrow> (if prev_sibling pn = 0
              then (if parent pn \<noteq> 0
                    then upd (parent pn) (\<lambda>n. n\<lparr>first_child := tmp\<rparr>) s
                    else Some s)
              else upd (prev_sibling pn) (\<lambda>n. n\<lparr>next_sibling := tmp\<rparr>) s);
        (parent_expanded, s) \<leftarrow> count_up (parent pn) True s;
        s \<leftarrow> count_head t parent_expanded s;
        Some (Inr (tmp, s))
      })"

text \<open>\<^verbatim>\<open>insert_after(iter position, const T& x)\<close>: a new node after \<open>position\<close>.  The source
  has no bookkeeping block here.\<close>

definition insert_after ::
  "tree \<Rightarrow> nat \<Rightarrow> 'a \<Rightarrow> 'a store \<Rightarrow> (error + nat \<times> 'a store) option" where
  "insert_after t position x s = do {
     let (tmp, s) = new_node x s;
     hn \<leftarrow> node_at s (head t);
     s \<leftarrow> upd tmp (\<lambda>n. n\<lparr>expanded := expanded hn, visible := visible hn\<rparr>) s;
     s \<leftarrow> upd tmp (\<lambda>n. n\<lparr>first_child := 0, last_child := 0\<rparr>) s;
     pn \<leftarrow> node_at s position;
     s \<leftarrow> upd tmp (\<lambda>n. n\<lparr>parent := parent pn, prev_sibling := position,
                          next_sibling := next_sibling pn\<rparr>) s;
     s \<leftarrow> upd position (\<lambda>n. n\<lparr>next_sibling := tmp\<rparr>) s;
     s \<leftarrow> (if next_sibling pn = 0
           then (if parent pn \<noteq> 0
                 then upd (parent pn) (\<lambda>n. n\<lparr>last_child := tmp\<rparr>) s
                 else Some s)
           else upd (next_sibling pn) (\<lambda>n. n\<lparr>prev_sibling := tmp\<rparr>) s);
     Some (Inr (tmp, s))
   }"

text \<open>\<^verbatim>\<open>append_child(iter position, const T& x)\<close>.\<close>

definition append_child ::
  "tree \<Rightarrow> nat \<Rightarrow> 'a \<Rightarrow> 'a store \<Rightarrow> (error + nat \<times> 'a store) option" where
  "append_child t position x s =
     (if position = head t \<or> position = feet t \<or> position = 0 then Some (Inl AssertFail)
      else do {
        let (tmp, s) = new_node x s;
        hn \<leftarrow> node_at s (head t);
        s \<leftarrow> upd tmp (\<lambda>n. n\<lparr>expanded := expanded hn, visible := visible hn\<rparr>) s;
        s \<leftarrow> upd tmp (\<lambda>n. n\<lparr>first_child := 0, last_child := 0\<rparr>) s;
        s \<leftarrow> upd tmp (\<lambda>n. n\<lparr>parent := position\<rparr>) s;
        pn \<leftarrow> node_at s position;
        s \<leftarrow> (if last_child pn \<noteq> 0
              then upd (last_child pn) (\<lambda>n. n\<lparr>next_sibling := tmp\<rparr>) s
              else upd position (\<lambda>n. n\<lparr>first_child := tmp\<rparr>) s);
        pn \<leftarrow> node_at s position;
        s \<leftarrow> upd tmp (\<lambda>n. n\<lparr>prev_sibling := last_child pn\<rparr>) s;
        s \<leftarrow> upd position (\<lambda>n. n\<lparr>last_child := tmp\<rparr>) s;
        s \<leftarrow> upd tmp (\<lambda>n. n\<lparr>next_sibling := 0\<rparr>) s;
        tn \<leftarrow> node_at s tmp;
        (parent_expanded, s) \<leftarrow> count_up (parent tn) True s;
        s \<leftarrow> count_head t parent_expanded s;
        Some (Inr (tmp, s))
      })"

text \<open>\<^verbatim>\<open>prepend_child(iter position, const T& x)\<close>.  The source has no bookkeeping block
  here.\<close>

definition prepend_child ::
  "tree \<Rightarrow> nat \<Rightarrow> 'a \<Rightarrow> 'a store \<Rightarrow> (error + nat \<times> 'a store) option" where
  "prepend_child t position x s =
     (if position = head t \<or> position = feet t \<or> position = 0 then Some (Inl AssertFail)
      else do {
        let (tmp, s) = new_node x s;
        hn \<leftarrow> node_at s (head t);
        s \<leftarrow> upd tmp (\<lambda>n. n\<lparr>expanded := expanded hn, visible := visible hn\<rparr>) s;
        s \<leftarrow> upd tmp (\<lambda>n. n\<lparr>first_child := 0, last_child := 0\<rparr>) s;
        s \<leftarrow> upd tmp (\<lambda>n. n\<lparr>parent := position\<rparr>) s;
        pn \<leftarrow> node_at s position;
        s \<leftarrow> (if first_child pn \<noteq> 0
              then upd (first_child pn) (\<lambda>n. n\<lparr>prev_sibling := tmp\<rparr>) s
              else upd position (\<lambda>n. n\<lparr>last_child := tmp\<rparr>) s);
        pn \<leftarrow> node_at s position;
        s \<leftarrow> upd tmp (\<lambda>n. n\<lparr>next_sibling := first_child pn\<rparr>) s;
        s \<leftarrow> upd position (\<lambda>n. n\<lparr>first_child := tmp\<rparr>) s;
        s \<leftarrow> upd tmp (\<lambda>n. n\<lparr>prev_sibling := 0\<rparr>) s;
        Some (Inr (tmp, s))
      })"

section \<open>Moving subtrees between trees\<close>

text \<open>\<^verbatim>\<open>move_out(iterator source)\<close>: \<^verbatim>\<open>tree ret;\<close> runs \<^verbatim>\<open>head_initialise_\<close>, then the
  source node is relinked between the new sentinels.\<close>

definition move_out :: "'a \<Rightarrow> nat \<Rightarrow> 'a store \<Rightarrow> (tree \<times> 'a store) option" where
  "move_out d source s = do {
     (ret, s) \<leftarrow> head_initialise d s;
     s \<leftarrow> upd (head ret) (\<lambda>n. n\<lparr>next_sibling := source\<rparr>) s;
     s \<leftarrow> upd (feet ret) (\<lambda>n. n\<lparr>prev_sibling := source\<rparr>) s;
     s \<leftarrow> upd source (\<lambda>n. n\<lparr>parent := 0\<rparr>) s;
     sn \<leftarrow> node_at s source;
     s \<leftarrow> (if prev_sibling sn \<noteq> 0
           then upd (prev_sibling sn) (\<lambda>n. n\<lparr>next_sibling := next_sibling sn\<rparr>) s
           else Some s);
     sn \<leftarrow> node_at s source;
     s \<leftarrow> (if next_sibling sn \<noteq> 0
           then upd (next_sibling sn) (\<lambda>n. n\<lparr>prev_sibling := prev_sibling sn\<rparr>) s
           else Some s);
     s \<leftarrow> upd source (\<lambda>n. n\<lparr>prev_sibling := head ret, next_sibling := feet ret\<rparr>) s;
     Some (ret, s)
   }"

text \<open>The first loop of \<^verbatim>\<open>move_in_as_nth_child\<close>: find the child after which the other
  tree's roots go, or throw.\<close>

fun nth_child_walk :: "'a store \<Rightarrow> nat \<Rightarrow> nat \<Rightarrow> (error + nat) option" where
  "nth_child_walk s 0 walk = (if walk = 0 then Some (Inl RangeError) else Some (Inr walk))"
| "nth_child_walk s (Suc n) walk =
     (if walk = 0 then Some (Inl RangeError)
      else do { nd \<leftarrow> node_at s walk; nth_child_walk s n (next_sibling nd) })"

text \<open>Its second loop: the moved roots get their new parent.\<close>

partial_function (option) adjust_parents ::
  "nat \<Rightarrow> nat \<Rightarrow> nat \<Rightarrow> 'a store \<Rightarrow> 'a store option" where
  "adjust_parents loc other_last_head walk s = do {
     s \<leftarrow> upd walk (\<lambda>n. n\<lparr>parent := loc\<rparr>) s;
     if walk = other_last_head then Some s
     else do { nd \<leftarrow> node_at s walk; adjust_parents loc other_last_head (next_sibling nd) s }
   }"

declare adjust_parents.simps [code]

definition move_in_as_nth_child ::
  "nat \<Rightarrow> size_t \<Rightarrow> tree \<Rightarrow> 'a store \<Rightarrow> (error + nat \<times> 'a store) option" where
  "move_in_as_nth_child loc n other s = do {
     oh \<leftarrow> node_at s (head other);
     if next_sibling oh = feet other then Some (Inr (loc, s))
     else do {
       let other_first_head = next_sibling oh;
       ofe \<leftarrow> node_at s (feet other);
       let other_last_head = prev_sibling ofe;
       ln \<leftarrow> node_at s loc;
       r \<leftarrow> (if n = 0
             then (if first_child ln = 0
                   then do {
                     s \<leftarrow> upd loc (\<lambda>n. n\<lparr>first_child := other_first_head\<rparr>) s;
                     s \<leftarrow> upd loc (\<lambda>n. n\<lparr>last_child := other_last_head\<rparr>) s;
                     s \<leftarrow> upd other_last_head (\<lambda>n. n\<lparr>next_sibling := 0\<rparr>) s;
                     s \<leftarrow> upd other_first_head (\<lambda>n. n\<lparr>prev_sibling := 0\<rparr>) s;
                     Some (Inr s)
                   }
                   else do {
                     s \<leftarrow> upd (first_child ln) (\<lambda>n. n\<lparr>prev_sibling := other_last_head\<rparr>) s;
                     ln \<leftarrow> node_at s loc;
                     s \<leftarrow> upd other_last_head (\<lambda>n. n\<lparr>next_sibling := first_child ln\<rparr>) s;
                     s \<leftarrow> upd loc (\<lambda>n. n\<lparr>first_child := other_first_head\<rparr>) s;
                     s \<leftarrow> upd other_first_head (\<lambda>n. n\<lparr>prev_sibling := 0\<rparr>) s;
                     Some (Inr s)
                   })
             else do {
               w \<leftarrow> nth_child_walk s (unat (n - 1)) (first_child ln);
               case w of Inl e \<Rightarrow> Some (Inl e)
               | Inr walk \<Rightarrow> do {
                   wn \<leftarrow> node_at s walk;
                   s \<leftarrow> (if next_sibling wn = 0
                         then upd loc (\<lambda>n. n\<lparr>last_child := other_last_head\<rparr>) s
                         else upd (next_sibling wn)
                                (\<lambda>n. n\<lparr>prev_sibling := other_last_head\<rparr>) s);
                   wn \<leftarrow> node_at s walk;
                   s \<leftarrow> upd other_last_head (\<lambda>n. n\<lparr>next_sibling := next_sibling wn\<rparr>) s;
                   s \<leftarrow> upd walk (\<lambda>n. n\<lparr>next_sibling := other_first_head\<rparr>) s;
                   s \<leftarrow> upd other_first_head (\<lambda>n. n\<lparr>prev_sibling := walk\<rparr>) s;
                   Some (Inr s)
                 }
             });
       case r of Inl e \<Rightarrow> Some (Inl e)
       | Inr s \<Rightarrow> do {
           s \<leftarrow> adjust_parents loc other_last_head other_first_head s;
           s \<leftarrow> upd (head other) (\<lambda>n. n\<lparr>next_sibling := feet other\<rparr>) s;
           s \<leftarrow> upd (feet other) (\<lambda>n. n\<lparr>prev_sibling := head other\<rparr>) s;
           Some (Inr (other_first_head, s))
         }
     }
   }"

section \<open>Children and paths\<close>

text \<open>\<^verbatim>\<open>child(const iterator_base& it, size_t num)\<close>: the loop \<^verbatim>\<open>while (num--)\<close> runs
  \<open>unat num\<close> times and asserts before each step.\<close>

fun child_loop :: "'a store \<Rightarrow> nat \<Rightarrow> nat \<Rightarrow> (error + nat) option" where
  "child_loop s 0 tmp = Some (Inr tmp)"
| "child_loop s (Suc num) tmp =
     (if tmp = 0 then Some (Inl AssertFail)
      else do { nd \<leftarrow> node_at s tmp; child_loop s num (next_sibling nd) })"

definition child :: "'a store \<Rightarrow> nat \<Rightarrow> size_t \<Rightarrow> (error + nat) option" where
  "child s it num = do { nd \<leftarrow> node_at s it; child_loop s (unat num) (first_child nd) }"

text \<open>\<^verbatim>\<open>number_of_children(const iterator_base& it)\<close>.\<close>

partial_function (option) count_siblings :: "'a store \<Rightarrow> nat \<Rightarrow> size_t \<Rightarrow> size_t option" where
  "count_siblings s pos ret = do {
     nd \<leftarrow> node_at s pos;
     if next_sibling nd \<noteq> 0 then count_siblings s (next_sibling nd) (ret + 1) else Some ret
   }"

declare count_siblings.simps [code]

definition number_of_children :: "'a store \<Rightarrow> nat \<Rightarrow> size_t option" where
  "number_of_children s it = do {
     nd \<leftarrow> node_at s it;
     if first_child nd = 0 then Some 0 else count_siblings s (first_child nd) 1
   }"

text \<open>\<^verbatim>\<open>iterator_from_path(const path_t& path, const iterator_base& top)\<close>: the inner loop
  takes \<open>path[step]\<close> steps to the right, the outer loop goes one level down per step
  after the first.\<close>

fun sibling_steps :: "'a store \<Rightarrow> nat \<Rightarrow> nat \<Rightarrow> (error + nat) option" where
  "sibling_steps s 0 walk = Some (Inr walk)"
| "sibling_steps s (Suc i) walk = do {
     nd \<leftarrow> node_at s walk;
     if next_sibling nd = 0 then Some (Inl RangeError)
     else sibling_steps s i (next_sibling nd)
   }"

fun path_steps :: "'a store \<Rightarrow> bool \<Rightarrow> size_t list \<Rightarrow> nat \<Rightarrow> (error + nat) option" where
  "path_steps s later [] walk = Some (Inr walk)"
| "path_steps s later (n # path) walk = do {
     walk \<leftarrow> (if later then map_option first_child (node_at s walk) else Some walk);
     if walk = 0 then Some (Inl RangeError)
     else do {
       r \<leftarrow> sibling_steps s (unat n) walk;
       case r of Inl e \<Rightarrow> Some (Inl e) | Inr walk \<Rightarrow> path_steps s True path walk
     }
   }"

definition iterator_from_path :: "'a store \<Rightarrow> size_t list \<Rightarrow> nat \<Rightarrow> (error + nat) option" where
  "iterator_from_path s path topn = path_steps s False path topn"

text \<open>\<^verbatim>\<open>path_from_iterator(const iterator_base& iter, const iterator_base& top)\<close>: the inner
  loop counts the steps to the left, the \<^verbatim>\<open>do ... while\<close> goes one level up per round; the
  path is pushed back and reversed at the end.\<close>

partial_function (option) prev_count ::
  "'a store \<Rightarrow> nat \<Rightarrow> nat \<Rightarrow> nat \<Rightarrow> size_t \<Rightarrow> (nat \<times> size_t) option" where
  "prev_count s hp topn walk num =
     (if walk = topn then Some (walk, num)
      else do {
        nd \<leftarrow> node_at s walk;
        if prev_sibling nd \<noteq> 0 \<and> prev_sibling nd \<noteq> hp
        then prev_count s hp topn (prev_sibling nd) (num + 1)
        else Some (walk, num)
      })"

declare prev_count.simps [code]

partial_function (option) path_loop ::
  "'a store \<Rightarrow> nat \<Rightarrow> nat \<Rightarrow> nat \<Rightarrow> size_t list \<Rightarrow> size_t list option" where
  "path_loop s hp topn walk path = do {
     walk \<leftarrow> (if length path > 0 then map_option parent (node_at s walk) else Some walk);
     (walk, num) \<leftarrow> prev_count s hp topn walk 0;
     let path = path @ [num];
     nd \<leftarrow> node_at s walk;
     if parent nd \<noteq> 0 \<and> walk \<noteq> topn then path_loop s hp topn walk path else Some path
   }"

declare path_loop.simps [code]

definition path_from_iterator :: "tree \<Rightarrow> 'a store \<Rightarrow> nat \<Rightarrow> nat \<Rightarrow> size_t list option" where
  "path_from_iterator t s iter topn = map_option rev (path_loop s (head t) topn iter [])"

section \<open>Depth\<close>









section \<open>Pre-order iteration and size\<close>

text \<open>The climbing loop of \<^verbatim>\<open>pre_order_iterator::operator++\<close>.\<close>

partial_function (option) pre_climb :: "'a store \<Rightarrow> nat \<Rightarrow> nat option" where
  "pre_climb s p = do {
     nd \<leftarrow> node_at s p;
     if next_sibling nd = 0
     then (if parent nd = 0 then Some 0 else pre_climb s (parent nd))
     else Some (next_sibling nd)
   }"

declare pre_climb.simps [code]

definition pre_inc :: "'a store \<Rightarrow> iterator_base \<Rightarrow> (error + iterator_base) option" where
  "pre_inc s it =
     (if node it = 0 then Some (Inl AssertFail)
      else do {
        nd \<leftarrow> node_at s (node it);
        if \<not> skip_current_children it \<and> first_child nd \<noteq> 0
        then Some (Inr (it\<lparr>node := first_child nd\<rparr>))
        else do {
          q \<leftarrow> pre_climb s (node it);
          Some (Inr \<lparr>node = q, skip_current_children = False\<rparr>)
        }
      })"

definition begin_tree :: "tree \<Rightarrow> 'a store \<Rightarrow> iterator_base option" where
  "begin_tree t s = do {
     hn \<leftarrow> node_at s (head t);
     Some \<lparr>node = next_sibling hn, skip_current_children = False\<rparr>
   }"

definition end_tree :: "tree \<Rightarrow> iterator_base" where
  "end_tree t = \<lparr>node = feet t, skip_current_children = False\<rparr>"

text \<open>\<^verbatim>\<open>size()\<close> as compiled: the cached counter of \<^verbatim>\<open>head\<close>.\<close>

definition size_tree :: "tree \<Rightarrow> 'a store \<Rightarrow> size_t option" where
  "size_tree t s = map_option count (node_at s (head t))"

text \<open>The walk of the other branch of \<^verbatim>\<open>size()\<close>: the number of increments that take a
  pre-order iterator from \<^verbatim>\<open>begin()\<close> to \<^verbatim>\<open>end()\<close>.\<close>

partial_function (option) size_loop ::
  "'a store \<Rightarrow> nat \<Rightarrow> iterator_base \<Rightarrow> size_t \<Rightarrow> (error + size_t) option" where
  "size_loop s eit it i =
     (if node it \<noteq> eit
      then (case pre_inc s it of
              None \<Rightarrow> None
            | Some (Inl e) \<Rightarrow> Some (Inl e)
            | Some (Inr it') \<Rightarrow> size_loop s eit it' (i + 1))
      else Some (Inr i))"

declare size_loop.simps [code]

definition size_walk :: "tree \<Rightarrow> 'a store \<Rightarrow> (error + size_t) option" where
  "size_walk t s = do {
     it \<leftarrow> begin_tree t s;
     size_loop s (node (end_tree t)) it 0
   }"

section \<open>Sibling iterators and equality of subtrees\<close>

text \<open>\<^verbatim>\<open>sibling_iterator\<close> extends the base cursor by \<^verbatim>\<open>parent_\<close>.  The constructor from a node
  pointer runs \<^verbatim>\<open>set_parent_()\<close>.\<close>

record sibling_iterator = iterator_base +
  parent_ptr :: nat

definition sibling_iterator_of :: "'a store \<Rightarrow> nat \<Rightarrow> sibling_iterator option" where
  "sibling_iterator_of s tn =
     (if tn = 0 then Some \<lparr>node = 0, skip_current_children = False, parent_ptr = 0\<rparr>
      else do {
        nd \<leftarrow> node_at s tn;
        Some \<lparr>node = tn, skip_current_children = False, parent_ptr = parent nd\<rparr>
      })"

text \<open>\<^verbatim>\<open>tree::end(const iterator_base& pos)\<close> and \<^verbatim>\<open>tree::begin(const iterator_base& pos)\<close>.\<close>

definition end_children :: "nat \<Rightarrow> sibling_iterator" where
  "end_children pos = \<lparr>node = 0, skip_current_children = False, parent_ptr = pos\<rparr>"

definition begin_children :: "'a store \<Rightarrow> nat \<Rightarrow> (error + sibling_iterator) option" where
  "begin_children s pos =
     (if pos = 0 then Some (Inl AssertFail)
      else do {
        nd \<leftarrow> node_at s pos;
        if first_child nd = 0 then Some (Inr (end_children pos))
        else do { it \<leftarrow> sibling_iterator_of s (first_child nd); Some (Inr it) }
      })"

text \<open>\<^verbatim>\<open>pre_order_iterator(const sibling_iterator& other)\<close>: an end iterator of a sibling range
  becomes the pre-order successor of the range.\<close>

definition pre_of_sibling :: "'a store \<Rightarrow> sibling_iterator \<Rightarrow> (error + iterator_base) option" where
  "pre_of_sibling s other =
     (if node other \<noteq> 0
      then Some (Inr \<lparr>node = node other, skip_current_children = False\<rparr>)
      else do {
        pn \<leftarrow> node_at s (parent_ptr other);
        let n = (if last_child pn \<noteq> 0 then last_child pn else parent_ptr other);
        pre_inc s \<lparr>node = n, skip_current_children = True\<rparr>
      })"

definition is_valid :: "tree \<Rightarrow> nat \<Rightarrow> bool" where
  "is_valid t it = (\<not> (it = 0 \<or> it = feet t \<or> it = head t))"

text \<open>\<^verbatim>\<open>iterator_base::number_of_children()\<close> counts up to \<^verbatim>\<open>last_child\<close>.\<close>

partial_function (option) count_to_last ::
  "'a store \<Rightarrow> nat \<Rightarrow> nat \<Rightarrow> size_t \<Rightarrow> size_t option" where
  "count_to_last s l pos ret =
     (if pos \<noteq> l
      then do { nd \<leftarrow> node_at s pos; count_to_last s l (next_sibling nd) (ret + 1) }
      else Some ret)"

declare count_to_last.simps [code]

definition number_of_children_it :: "'a store \<Rightarrow> nat \<Rightarrow> size_t option" where
  "number_of_children_it s it = do {
     nd \<leftarrow> node_at s it;
     if first_child nd = 0 then Some 0
     else count_to_last s (last_child nd) (first_child nd) 1
   }"

text \<open>\<^verbatim>\<open>equal(one_, two, three_, fun)\<close> on sibling iterators.  The comparison
  \<^verbatim>\<open>one != two\<close> converts \<^verbatim>\<open>two\<close> to a pre-order iterator each time it is evaluated.\<close>

partial_function (option) equal_loop ::
  "tree \<Rightarrow> 'a store \<Rightarrow> ('a \<Rightarrow> 'a \<Rightarrow> bool) \<Rightarrow> sibling_iterator \<Rightarrow> iterator_base \<Rightarrow>
   iterator_base \<Rightarrow> (error + bool) option" where
  "equal_loop t s f two one three = do {
     r \<leftarrow> pre_of_sibling s two;
     case r of Inl e \<Rightarrow> Some (Inl e)
     | Inr two' \<Rightarrow>
         if node one \<noteq> node two' \<and> is_valid t (node three)
         then do {
           n1 \<leftarrow> node_at s (node one);
           n3 \<leftarrow> node_at s (node three);
           if \<not> f (data n1) (data n3) then Some (Inr False)
           else do {
             c1 \<leftarrow> number_of_children_it s (node one);
             c3 \<leftarrow> number_of_children_it s (node three);
             if c1 \<noteq> c3 then Some (Inr False)
             else do {
               r1 \<leftarrow> pre_inc s one;
               case r1 of Inl e \<Rightarrow> Some (Inl e)
               | Inr one' \<Rightarrow> do {
                   r3 \<leftarrow> pre_inc s three;
                   case r3 of Inl e \<Rightarrow> Some (Inl e)
                   | Inr three' \<Rightarrow> equal_loop t s f two one' three'
                 }
             }
           }
         }
         else Some (Inr True)
   }"

declare equal_loop.simps [code]

definition equal_tree ::
  "tree \<Rightarrow> 'a store \<Rightarrow> sibling_iterator \<Rightarrow> sibling_iterator \<Rightarrow> sibling_iterator \<Rightarrow>
   ('a \<Rightarrow> 'a \<Rightarrow> bool) \<Rightarrow> (error + bool) option" where
  "equal_tree t s one_it two three_it f = do {
     r1 \<leftarrow> pre_of_sibling s one_it;
     case r1 of Inl e \<Rightarrow> Some (Inl e)
     | Inr one \<Rightarrow> do {
         r3 \<leftarrow> pre_of_sibling s three_it;
         case r3 of Inl e \<Rightarrow> Some (Inl e)
         | Inr three \<Rightarrow> equal_loop t s f two one three
       }
   }"

text \<open>\<^verbatim>\<open>equal_subtree(one_, two_, fun)\<close>.\<close>

definition equal_subtree ::
  "tree \<Rightarrow> 'a store \<Rightarrow> nat \<Rightarrow> nat \<Rightarrow> ('a \<Rightarrow> 'a \<Rightarrow> bool) \<Rightarrow> (error + bool) option" where
  "equal_subtree t s one two f = do {
     n1 \<leftarrow> node_at s one;
     n2 \<leftarrow> node_at s two;
     if \<not> f (data n1) (data n2) then Some (Inr False)
     else do {
       c1 \<leftarrow> number_of_children s one;
       c2 \<leftarrow> number_of_children s two;
       if c1 \<noteq> c2 then Some (Inr False)
       else do {
         b1 \<leftarrow> begin_children s one;
         case b1 of Inl e \<Rightarrow> Some (Inl e)
         | Inr one_it \<Rightarrow> do {
             b2 \<leftarrow> begin_children s two;
             case b2 of Inl e \<Rightarrow> Some (Inl e)
             | Inr three_it \<Rightarrow> equal_tree t s one_it (end_children one) three_it f
           }
       }
     }
   }"

section \<open>Filtering\<close>

text \<open>\<^verbatim>\<open>filter(StrictWeakFiltering comp)\<close>.  \<open>filter_up1\<close> is the innermost loop over
  \<^verbatim>\<open>parent1\<close>, \<open>filter_up\<close> the loop over \<^verbatim>\<open>parent\<close> that forces the ancestors of a visible
  node visible, \<open>filter_loop\<close> the pre-order sweep.\<close>

partial_function (option) filter_up1 :: "nat \<Rightarrow> 'a store \<Rightarrow> 'a store option" where
  "filter_up1 parent1 s =
     (if parent1 = 0 then Some s
      else do {
        s \<leftarrow> upd parent1 (\<lambda>n. n\<lparr>count_expandable := count_expandable n + 1\<rparr>) s;
        s \<leftarrow> upd parent1 (\<lambda>n. n\<lparr>count_expanded := count_expanded n + 1\<rparr>) s;
        nd \<leftarrow> node_at s parent1;
        filter_up1 (parent nd) s
      })"

declare filter_up1.simps [code]

partial_function (option) filter_up :: "tree \<Rightarrow> nat \<Rightarrow> 'a store \<Rightarrow> 'a store option" where
  "filter_up t p s =
     (if p = 0 then Some s
      else do {
        nd \<leftarrow> node_at s p;
        s \<leftarrow> (if \<not> visible nd
              then do {
                s \<leftarrow> upd p (\<lambda>n. n\<lparr>visible := True\<rparr>) s;
                s \<leftarrow> upd (head t) (\<lambda>n. n\<lparr>count_expandable := count_expandable n + 1\<rparr>) s;
                s \<leftarrow> upd (head t) (\<lambda>n. n\<lparr>count_expanded := count_expanded n + 1\<rparr>) s;
                pn \<leftarrow> node_at s p;
                filter_up1 (parent pn) s
              }
              else Some s);
        s \<leftarrow> upd p (\<lambda>n. n\<lparr>count_expandable := count_expandable n + 1\<rparr>) s;
        s \<leftarrow> upd p (\<lambda>n. n\<lparr>count_expanded := count_expanded n + 1\<rparr>) s;
        nd \<leftarrow> node_at s p;
        filter_up t (parent nd) s
      })"

declare filter_up.simps [code]

partial_function (option) filter_loop ::
  "tree \<Rightarrow> ('a \<Rightarrow> bool) \<Rightarrow> iterator_base \<Rightarrow> 'a store \<Rightarrow> (error + 'a store) option" where
  "filter_loop t keep it s =
     (if node it \<noteq> feet t
      then do {
        nd \<leftarrow> node_at s (node it);
        s \<leftarrow> (if first_child nd \<noteq> 0
              then upd (node it) (\<lambda>n. n\<lparr>expanded := True, count_expandable := 0,
                                        count_expanded := 0\<rparr>) s
              else Some s);
        nd \<leftarrow> node_at s (node it);
        let vis = keep (data nd);
        s \<leftarrow> upd (node it) (\<lambda>n. n\<lparr>visible := vis\<rparr>) s;
        s \<leftarrow> (if vis
              then do {
                s \<leftarrow> upd (head t) (\<lambda>n. n\<lparr>count_expandable := count_expandable n + 1\<rparr>) s;
                s \<leftarrow> upd (head t) (\<lambda>n. n\<lparr>count_expanded := count_expanded n + 1\<rparr>) s;
                nd \<leftarrow> node_at s (node it);
                filter_up t (parent nd) s
              }
              else Some s);
        r \<leftarrow> pre_inc s it;
        case r of Inl e \<Rightarrow> Some (Inl e) | Inr it' \<Rightarrow> filter_loop t keep it' s
      }
      else Some (Inr s))"

declare filter_loop.simps [code]

definition filter_tree ::
  "tree \<Rightarrow> ('a \<Rightarrow> bool) \<Rightarrow> 'a store \<Rightarrow> (error + size_t \<times> 'a store) option" where
  "filter_tree t keep s = do {
     s \<leftarrow> upd (head t) (\<lambda>n. n\<lparr>count_expandable := 0\<rparr>) s;
     s \<leftarrow> upd (head t) (\<lambda>n. n\<lparr>count_expanded := 0\<rparr>) s;
     it \<leftarrow> begin_tree t s;
     r \<leftarrow> filter_loop t keep it s;
     case r of Inl e \<Rightarrow> Some (Inl e)
     | Inr s \<Rightarrow> do { hn \<leftarrow> node_at s (head t); Some (Inr (count_expanded hn, s)) }
   }"

section \<open>Sorting\<close>

text \<open>\<^verbatim>\<open>sibling_iterator::operator++\<close> and \<^verbatim>\<open>sibling_iterator::operator--\<close>.\<close>

definition sib_inc :: "'a store \<Rightarrow> sibling_iterator \<Rightarrow> sibling_iterator option" where
  "sib_inc s it =
     (if node it \<noteq> 0
      then do { nd \<leftarrow> node_at s (node it); Some (it\<lparr>node := next_sibling nd\<rparr>) }
      else Some it)"

definition sib_dec :: "'a store \<Rightarrow> sibling_iterator \<Rightarrow> (error + sibling_iterator) option" where
  "sib_dec s it =
     (if node it \<noteq> 0
      then do { nd \<leftarrow> node_at s (node it); Some (Inr (it\<lparr>node := prev_sibling nd\<rparr>)) }
      else if parent_ptr it = 0 then Some (Inl AssertFail)
      else do { pn \<leftarrow> node_at s (parent_ptr it); Some (Inr (it\<lparr>node := last_child pn\<rparr>)) })"

text \<open>The \<^verbatim>\<open>std::multiset\<close> of node pointers ordered by \<^verbatim>\<open>compare_nodes\<close> is kept as the list
  of its elements in iteration order.  \<^verbatim>\<open>insert\<close> puts the new pointer at the upper bound of
  the elements equivalent to it, which is what the C++ standard prescribes; the comparisons
  read the values of the nodes.\<close>

fun ms_insert :: "'a store \<Rightarrow> ('a \<Rightarrow> 'a \<Rightarrow> bool) \<Rightarrow> nat \<Rightarrow> nat list \<Rightarrow> nat list option" where
  "ms_insert s cmp n [] = Some [n]"
| "ms_insert s cmp n (m # ms) = do {
     a \<leftarrow> node_at s n;
     b \<leftarrow> node_at s m;
     if cmp (data a) (data b) then Some (n # m # ms)
     else do { r \<leftarrow> ms_insert s cmp n ms; Some (m # r) }
   }"

partial_function (option) sort_collect ::
  "'a store \<Rightarrow> ('a \<Rightarrow> 'a \<Rightarrow> bool) \<Rightarrow> sibling_iterator \<Rightarrow> sibling_iterator \<Rightarrow> nat list \<Rightarrow>
   nat list option" where
  "sort_collect s cmp it to nodes =
     (if node it \<noteq> node to
      then do {
        nodes \<leftarrow> ms_insert s cmp (node it) nodes;
        it \<leftarrow> sib_inc s it;
        sort_collect s cmp it to nodes
      }
      else Some nodes)"

declare sort_collect.simps [code]

text \<open>The loop \<^verbatim>\<open>while (nit != eit)\<close> over all sorted nodes but the last.\<close>

fun sort_link :: "nat list \<Rightarrow> nat \<Rightarrow> 'a store \<Rightarrow> (nat \<times> 'a store) option" where
  "sort_link [] prev s = Some (prev, s)"
| "sort_link (n # ns) prev s = do {
     s \<leftarrow> upd n (\<lambda>x. x\<lparr>prev_sibling := prev\<rparr>) s;
     s \<leftarrow> (if prev \<noteq> 0 then upd prev (\<lambda>x. x\<lparr>next_sibling := n\<rparr>) s else Some s);
     sort_link ns n s
   }"

text \<open>\<^verbatim>\<open>sort(from, to, comp, deep)\<close>.  With \<open>children = False\<close> the function is the body of
  \<^verbatim>\<open>sort\<close> on the range from \<open>a\<close> to \<open>b\<close>; with \<open>children = True\<close> it is the loop
  \<^verbatim>\<open>while (bcs != ecs)\<close> at the end of \<^verbatim>\<open>sort\<close>, which sorts the children of the nodes from
  \<open>a\<close> up to \<open>b\<close>.\<close>

partial_function (option) sort_go ::
  "('a \<Rightarrow> 'a \<Rightarrow> bool) \<Rightarrow> bool \<Rightarrow> bool \<Rightarrow> sibling_iterator \<Rightarrow> sibling_iterator \<Rightarrow> 'a store \<Rightarrow>
   (error + 'a store) option" where
  "sort_go cmp deep children a b s =
     (if children
      then (if node a \<noteq> node b
            then do {
              r \<leftarrow> begin_children s (node a);
              case r of Inl e \<Rightarrow> Some (Inl e)
              | Inr f \<Rightarrow> do {
                  r \<leftarrow> sort_go cmp deep False f (end_children (node a)) s;
                  case r of Inl e \<Rightarrow> Some (Inl e)
                  | Inr s \<Rightarrow> do { a \<leftarrow> sib_inc s a; sort_go cmp deep True a b s }
                }
            }
            else Some (Inr s))
      else if node a = node b then Some (Inr s)
      else do {
        nodes \<leftarrow> sort_collect s cmp a b [];
        r \<leftarrow> sib_dec s b;
        case r of Inl e \<Rightarrow> Some (Inl e)
        | Inr it2 \<Rightarrow> do {
            fnd \<leftarrow> node_at s (node a);
            lnd \<leftarrow> node_at s (node it2);
            case nodes of [] \<Rightarrow> None
            | nit # rest \<Rightarrow> do {
                let prev = prev_sibling fnd;
                let next = next_sibling lnd;
                let eit = last nodes;
                s \<leftarrow> (if prev = 0
                      then do {
                        nn \<leftarrow> node_at s nit;
                        if parent nn \<noteq> 0 then upd (parent nn) (\<lambda>x. x\<lparr>first_child := nit\<rparr>) s
                        else Some s
                      }
                      else upd prev (\<lambda>x. x\<lparr>next_sibling := nit\<rparr>) s);
                (prev, s) \<leftarrow> sort_link (butlast nodes) prev s;
                s \<leftarrow> (if prev \<noteq> 0 then upd prev (\<lambda>x. x\<lparr>next_sibling := eit\<rparr>) s else Some s);
                s \<leftarrow> upd eit (\<lambda>x. x\<lparr>next_sibling := next\<rparr>) s;
                s \<leftarrow> upd eit (\<lambda>x. x\<lparr>prev_sibling := prev\<rparr>) s;
                s \<leftarrow> (if next = 0
                      then do {
                        en \<leftarrow> node_at s eit;
                        if parent en \<noteq> 0 then upd (parent en) (\<lambda>x. x\<lparr>last_child := eit\<rparr>) s
                        else Some s
                      }
                      else upd next (\<lambda>x. x\<lparr>prev_sibling := eit\<rparr>) s);
                if deep
                then do {
                  bcs \<leftarrow> sibling_iterator_of s nit;
                  ecs \<leftarrow> sibling_iterator_of s eit;
                  ecs \<leftarrow> sib_inc s ecs;
                  sort_go cmp deep True bcs ecs s
                }
                else Some (Inr s)
              }
          }
      })"

declare sort_go.simps [code]

definition sort_tree ::
  "sibling_iterator \<Rightarrow> sibling_iterator \<Rightarrow> ('a \<Rightarrow> 'a \<Rightarrow> bool) \<Rightarrow> bool \<Rightarrow> 'a store \<Rightarrow>
   (error + 'a store) option" where
  "sort_tree from to cmp deep s = sort_go cmp deep False from to s"

section \<open>Well-formed trees\<close>

text \<open>
  The shape a store holds is described by a forest of addresses: \<open>RNode a cs\<close> is the node
  at address \<open>a\<close> with the children \<open>cs\<close>, in sibling order.  \<open>wf_node s par prv nxt t\<close>
  says that the store links \<open>t\<close> as the shape prescribes: its node is allocated, has
  parent \<open>par\<close>, previous sibling \<open>prv\<close> and next sibling \<open>nxt\<close>, its first and last child
  are the ends of \<open>cs\<close>, and the children are linked the same way below it.  \<open>wf_chain\<close> is
  the same for a sibling chain that ends in \<open>e\<close> (null below a node, \<^verbatim>\<open>feet\<close> at the top
  level).  These are invariants 1 to 3 of the data model.
\<close>

datatype rtree = RNode (addr: nat) (kids: "rtree list")

fun first_addr :: "nat \<Rightarrow> rtree list \<Rightarrow> nat" where
  "first_addr e [] = e"
| "first_addr e (c # cs) = addr c"

fun last_addr :: "nat \<Rightarrow> rtree list \<Rightarrow> nat" where
  "last_addr e [] = e"
| "last_addr e (c # cs) = last_addr (addr c) cs"

fun wf_node :: "'a store \<Rightarrow> nat \<Rightarrow> nat \<Rightarrow> nat \<Rightarrow> rtree \<Rightarrow> bool"
  and wf_chain :: "'a store \<Rightarrow> nat \<Rightarrow> nat \<Rightarrow> nat \<Rightarrow> rtree list \<Rightarrow> bool" where
  "wf_node s par prv nxt (RNode a cs) =
     (case node_at s a of None \<Rightarrow> False
      | Some nd \<Rightarrow> parent nd = par \<and> prev_sibling nd = prv \<and> next_sibling nd = nxt \<and>
          first_child nd = first_addr 0 cs \<and> last_child nd = last_addr 0 cs \<and>
          wf_chain s a 0 0 cs)"
| "wf_chain s par prv e [] = True"
| "wf_chain s par prv e (c # cs) =
     (wf_node s par prv (first_addr e cs) c \<and> wf_chain s par (addr c) e cs)"

text \<open>The five links of a node, and a store whose allocator is sound: the address it
  hands out next is not null and not allocated.\<close>

definition links :: "'a tree_node \<Rightarrow> nat \<times> nat \<times> nat \<times> nat \<times> nat" where
  "links nd = (parent nd, first_child nd, last_child nd, prev_sibling nd, next_sibling nd)"

definition store_ok :: "'a store \<Rightarrow> bool" where
  "store_ok s = (fresh s \<noteq> 0 \<and> cells s (fresh s) = None)"

text \<open>The addresses of a shape in pre-order.\<close>

fun pre :: "rtree \<Rightarrow> nat list" where
  "pre (RNode a cs) = a # concat (map pre cs)"

definition pre_forest :: "rtree list \<Rightarrow> nat list" where
  "pre_forest ts = concat (map pre ts)"

text \<open>A tree handle is well formed for the roots \<open>ts\<close> when the two sentinels bracket the
  chain of roots and no address occurs twice.\<close>

definition wf_tree :: "tree \<Rightarrow> 'a store \<Rightarrow> rtree list \<Rightarrow> bool" where
  "wf_tree t s ts =
     ((case node_at s (head t) of None \<Rightarrow> False
       | Some hn \<Rightarrow> parent hn = 0 \<and> prev_sibling hn = 0 \<and> first_child hn = 0 \<and>
           last_child hn = 0 \<and> next_sibling hn = first_addr (feet t) ts) \<and>
      (case node_at s (feet t) of None \<Rightarrow> False
       | Some fn \<Rightarrow> parent fn = 0 \<and> next_sibling fn = 0 \<and> first_child fn = 0 \<and>
           last_child fn = 0 \<and> prev_sibling fn = last_addr (head t) ts) \<and>
      wf_chain s 0 (head t) (feet t) ts \<and>
      distinct (head t # feet t # pre_forest ts))"

text \<open>The nodes of a shape as shapes, and the node reached from the root of a shape by a
  list of child indices.\<close>

fun subtrees :: "rtree \<Rightarrow> rtree list" where
  "subtrees (RNode a cs) = RNode a cs # concat (map subtrees cs)"

definition subtrees_forest :: "rtree list \<Rightarrow> rtree list" where
  "subtrees_forest ts = concat (map subtrees ts)"

fun at_path :: "rtree \<Rightarrow> nat list \<Rightarrow> nat \<Rightarrow> bool" where
  "at_path u [] x = (x = addr u)"
| "at_path u (i # is) x = (i < length (kids u) \<and> at_path (kids u ! i) is x)"

text \<open>One round of the \<^verbatim>\<open>do ... while\<close> of \<^verbatim>\<open>path_from_iterator\<close> after the step to the
  parent.\<close>

definition path_body ::
  "'a store \<Rightarrow> nat \<Rightarrow> nat \<Rightarrow> nat \<Rightarrow> size_t list \<Rightarrow> size_t list option" where
  "path_body s hp topn walk path = do {
     (walk, num) \<leftarrow> prev_count s hp topn walk 0;
     let path = path @ [num];
     nd \<leftarrow> node_at s walk;
     if parent nd \<noteq> 0 \<and> walk \<noteq> topn then path_loop s hp topn walk path else Some path
   }"

text \<open>Where the climbing loop of the pre-order increment ends for a node with parent
  \<open>par\<close> and next sibling \<open>nxt\<close>, and one increment of a pre-order iterator as a relation
  between addresses.\<close>

definition after :: "'a store \<Rightarrow> nat \<Rightarrow> nat \<Rightarrow> nat option" where
  "after s par nxt = (if nxt \<noteq> 0 then Some nxt else if par = 0 then Some 0 else pre_climb s par)"

definition step :: "'a store \<Rightarrow> nat \<Rightarrow> nat \<Rightarrow> bool" where
  "step s x y = (pre_inc s \<lparr>node = x, skip_current_children = False\<rparr>
                  = Some (Inr \<lparr>node = y, skip_current_children = False\<rparr>))"

text \<open>The proper ancestors of an address inside a shape, nearest first; the chain of
  parent pointers that starts at a pointer; and the visibility flag and the value stored at
  an address.\<close>

fun ancs :: "rtree \<Rightarrow> nat \<Rightarrow> nat list" where
  "ancs (RNode a cs) x =
     (if x \<in> set (concat (map pre cs)) then concat (map (\<lambda>c. ancs c x) cs) @ [a] else [])"

definition ancs_forest :: "rtree list \<Rightarrow> nat \<Rightarrow> nat list" where
  "ancs_forest ts x = concat (map (\<lambda>c. ancs c x) ts)"

fun pchain :: "'a store \<Rightarrow> nat \<Rightarrow> nat list \<Rightarrow> bool" where
  "pchain s p [] = (p = 0)"
| "pchain s p (a # as) =
     (p = a \<and> (case node_at s a of None \<Rightarrow> False | Some nd \<Rightarrow> pchain s (parent nd) as))"

definition vis :: "'a store \<Rightarrow> nat \<Rightarrow> bool" where
  "vis s a = (case node_at s a of None \<Rightarrow> False | Some nd \<Rightarrow> visible nd)"

definition dat :: "'a store \<Rightarrow> nat \<Rightarrow> 'a option" where
  "dat s a = map_option data (node_at s a)"

text \<open>Two stores hold the same tree when every cell has the same pointers and the same value;
  a filtering predicate holds at an address when it holds of the value stored there.\<close>

definition same_shape :: "'a store \<Rightarrow> 'a store \<Rightarrow> bool" where
  "same_shape s s' = (\<forall>a. map_option (\<lambda>n. (links n, data n)) (node_at s' a)
                          = map_option (\<lambda>n. (links n, data n)) (node_at s a))"

definition holds :: "('a \<Rightarrow> bool) \<Rightarrow> 'a store \<Rightarrow> nat \<Rightarrow> bool" where
  "holds keep s a = (case dat s a of None \<Rightarrow> False | Some v \<Rightarrow> keep v)"


text \<open>Sorted sibling ranges.  \<open>below\<close> compares two nodes by their values, \<open>ins\<close> and
  \<open>isort\<close> are insertion at the upper bound and the sort it gives, \<open>sib_range\<close> says that a list of
  nodes is a run of siblings between \<open>p\<close> and \<open>nx\<close> under the parent \<open>par\<close>, \<open>succ_in\<close> is the element
  after \<open>a\<close> in a list (the default when there is none), and \<open>relinked\<close> is a node after its
  sibling pointers have been set to follow the list \<open>p, ms, nx\<close>.\<close>

definition below :: "('a \<Rightarrow> 'a \<Rightarrow> bool) \<Rightarrow> 'a store \<Rightarrow> nat \<Rightarrow> nat \<Rightarrow> bool" where
  "below cmp s a b = (case dat s a of None \<Rightarrow> False
                      | Some x \<Rightarrow> (case dat s b of None \<Rightarrow> False | Some y \<Rightarrow> cmp x y))"

definition strict_weak_order :: "('a \<Rightarrow> 'a \<Rightarrow> bool) \<Rightarrow> bool" where
  "strict_weak_order cmp = ((\<forall>x. \<not> cmp x x) \<and> (\<forall>x y z. cmp x y \<longrightarrow> cmp y z \<longrightarrow> cmp x z) \<and>
     (\<forall>x y z. cmp x y \<longrightarrow> cmp x z \<or> cmp z y))"

definition equivalent :: "(nat \<Rightarrow> nat \<Rightarrow> bool) \<Rightarrow> nat \<Rightarrow> nat \<Rightarrow> bool" where
  "equivalent lt c a = (\<not> lt a c \<and> \<not> lt c a)"

definition stable_sorted :: "(nat \<Rightarrow> nat \<Rightarrow> bool) \<Rightarrow> nat list \<Rightarrow> nat list \<Rightarrow> bool" where
  "stable_sorted lt ns ms = (distinct ms \<and> set ms = set ns \<and>
     sorted_wrt (\<lambda>a b. \<not> lt b a) ms \<and>
     (\<forall>c \<in> set ns. filter (equivalent lt c) ms = filter (equivalent lt c) ns))"

fun ins :: "(nat \<Rightarrow> nat \<Rightarrow> bool) \<Rightarrow> nat \<Rightarrow> nat list \<Rightarrow> nat list" where
  "ins lt n [] = [n]"
| "ins lt n (m # ms) = (if lt n m then n # m # ms else m # ins lt n ms)"

fun sib_range :: "'a store \<Rightarrow> nat \<Rightarrow> nat \<Rightarrow> nat \<Rightarrow> nat list \<Rightarrow> bool" where
  "sib_range s par p nx [] = True"
| "sib_range s par p nx (a # as) =
     (case node_at s a of None \<Rightarrow> False
      | Some nd \<Rightarrow> parent nd = par \<and> prev_sibling nd = p \<and> next_sibling nd = hd (as @ [nx]) \<and>
          sib_range s par a nx as)"

definition isort :: "(nat \<Rightarrow> nat \<Rightarrow> bool) \<Rightarrow> nat list \<Rightarrow> nat list" where
  "isort lt ns = foldl (\<lambda>acc n. ins lt n acc) [] ns"

fun succ_in :: "nat \<Rightarrow> nat list \<Rightarrow> nat \<Rightarrow> nat" where
  "succ_in d [] a = d"
| "succ_in d (x # xs) a = (if a = x then hd (xs @ [d]) else succ_in d xs a)"

definition relinked :: "nat \<Rightarrow> nat \<Rightarrow> nat \<Rightarrow> nat list \<Rightarrow> nat \<Rightarrow> 'a tree_node \<Rightarrow> 'a tree_node" where
  "relinked par p nx ms a nd =
     nd\<lparr>prev_sibling := succ_in (prev_sibling nd) (rev (p # ms @ [nx])) a,
        next_sibling := succ_in (next_sibling nd) (p # ms @ [nx]) a,
        first_child := (if a = par \<and> p = 0 then hd ms else first_child nd),
        last_child := (if a = par \<and> nx = 0 then last ms else last_child nd)\<rparr>"

definition sort_range_ok :: "'a store \<Rightarrow> nat \<Rightarrow> nat \<Rightarrow> nat \<Rightarrow> nat list \<Rightarrow> bool" where
  "sort_range_ok s par p nx ns =
     (ns \<noteq> [] \<and> distinct ns \<and> sib_range s par p nx ns \<and>
      p \<notin> set ns \<and> nx \<notin> set ns \<and> par \<notin> set ns \<and>
      (p \<noteq> 0 \<longrightarrow> node_at s p \<noteq> None) \<and>
      (p = 0 \<and> par \<noteq> 0 \<longrightarrow> node_at s par \<noteq> None) \<and>
      (nx \<noteq> 0 \<longrightarrow> (case node_at s nx of None \<Rightarrow> False | Some n \<Rightarrow> prev_sibling n = last ns)) \<and>
      (nx = 0 \<longrightarrow> (case node_at s par of None \<Rightarrow> False | Some n \<Rightarrow> last_child n = last ns)))"

section \<open>Concrete trees\<close>

text \<open>An empty tree, a first root \<open>5\<close> put in with \<^verbatim>\<open>insert(end(), 5)\<close>, then a second root
  \<open>6\<close> put in with \<^verbatim>\<open>insert_after\<close>.\<close>

definition two_roots :: "(tree \<times> nat store) option" where
  "two_roots = do {
     (t, s) \<leftarrow> head_initialise 0 empty_store;
     r \<leftarrow> insert_before t (feet t) 5 s;
     case r of Inl e \<Rightarrow> None
     | Inr (a, s) \<Rightarrow> do {
         r \<leftarrow> insert_after t a 6 s;
         case r of Inl e \<Rightarrow> None | Inr (b, s) \<Rightarrow> Some (t, s)
       }
   }"

text \<open>Three roots \<open>1\<close>, \<open>4\<close>, \<open>5\<close>; the middle one gets the children \<open>6\<close> and \<open>7\<close>.  The
  result lists the handle, the addresses of the three roots and the store.\<close>

definition three_roots :: "(tree \<times> nat \<times> nat \<times> nat \<times> nat store) option" where
  "three_roots = do {
     (t, s) \<leftarrow> head_initialise 0 empty_store;
     r \<leftarrow> insert_before t (feet t) 1 s;
     case r of Inl e \<Rightarrow> None
     | Inr (a, s) \<Rightarrow> do {
     r \<leftarrow> insert_before t (feet t) 4 s;
     case r of Inl e \<Rightarrow> None
     | Inr (d, s) \<Rightarrow> do {
     r \<leftarrow> insert_before t (feet t) 5 s;
     case r of Inl e \<Rightarrow> None
     | Inr (e, s) \<Rightarrow> do {
     r \<leftarrow> append_child t d 6 s;
     case r of Inl e \<Rightarrow> None
     | Inr (f, s) \<Rightarrow> do {
     r \<leftarrow> append_child t d 7 s;
     case r of Inl e \<Rightarrow> None
     | Inr (g, s) \<Rightarrow> Some (t, a, d, e, s)
     }}}}
   }"

text \<open>The store, the handle and the shape of the tree with three roots.\<close>

definition ex_tree :: tree where
  "ex_tree = (case three_roots of Some (t, a, d, e, s) \<Rightarrow> t | None \<Rightarrow> \<lparr>head = 0, feet = 0\<rparr>)"

definition ex_store :: "nat store" where
  "ex_store = (case three_roots of Some (t, a, d, e, s) \<Rightarrow> s | None \<Rightarrow> empty_store)"

definition ex_shape :: "rtree list" where
  "ex_shape = [RNode 3 [], RNode 4 [RNode 6 [], RNode 7 []], RNode 5 []]"

section \<open>Basic facts about well-formed trees\<close>

lemma node_at_zero [simp]: "node_at s 0 = None"
  by (simp add: node_at_def)

lemma wf_node_view:
  assumes "wf_node s par prv nxt t"
  obtains nd where "node_at s (addr t) = Some nd" "parent nd = par" "prev_sibling nd = prv"
    "next_sibling nd = nxt" "first_child nd = first_addr 0 (kids t)"
    "last_child nd = last_addr 0 (kids t)" "wf_chain s (addr t) 0 0 (kids t)" "addr t \<noteq> 0"
proof (cases t)
  case (RNode a cs)
  with assms obtain nd where nd: "node_at s a = Some nd" "parent nd = par" "prev_sibling nd = prv"
    "next_sibling nd = nxt" "first_child nd = first_addr 0 cs" "last_child nd = last_addr 0 cs"
    "wf_chain s a 0 0 cs"
    by (auto split: option.splits)
  from nd(1) have "a \<noteq> 0" by (auto simp: node_at_def split: if_splits)
  with nd RNode that show thesis by simp
qed

lemma wf_chain_last:
  "wf_chain s par prv e ts \<Longrightarrow> ts \<noteq> [] \<Longrightarrow>
   \<exists>nd. node_at s (last_addr x ts) = Some nd \<and> parent nd = par \<and> next_sibling nd = e
      \<and> last_addr x ts \<noteq> 0"
proof (induction ts arbitrary: prv x)
  case Nil
  then show ?case by simp
next
  case (Cons c cs)
  show ?case
  proof (cases cs)
    case Nil
    from Cons.prems have "wf_node s par prv e c" using Nil by simp
    then show ?thesis using Nil by (auto elim!: wf_node_view)
  next
    case (Cons d ds)
    with Cons.prems Cons.IH[of "addr c" "addr c"] show ?thesis by simp
  qed
qed

lemma pre_climb_wf: "wf_node s par prv nxt t \<Longrightarrow> pre_climb s (addr t) = after s par nxt"
  by (erule wf_node_view) (subst pre_climb.simps, simp add: after_def)

lemma pre_forest_simps [simp]:
  "pre_forest [] = []" "pre_forest (c # cs) = pre c @ pre_forest cs"
  by (simp_all add: pre_forest_def)

lemma pre_kids: "pre t = addr t # pre_forest (kids t)"
  by (cases t) (simp add: pre_forest_def)

lemma pre_nonempty: "pre t \<noteq> []" and hd_pre: "hd (pre t) = addr t"
  by (cases t; simp)+

lemma hd_pre_forest: "ts \<noteq> [] \<Longrightarrow> hd (pre_forest ts @ ys) = first_addr e ts"
  by (cases ts) (simp_all add: pre_kids)

lemma step_succ:
  "wf_node s par prv nxt t \<Longrightarrow> after s par nxt = Some k \<Longrightarrow> successively (step s) (pre t @ [k])"
  "wf_chain s par prv e ts \<Longrightarrow> after s par e = Some k \<Longrightarrow> ts \<noteq> [] \<Longrightarrow>
     successively (step s) (pre_forest ts @ [k])"
proof (induction s par prv nxt t and s par prv e ts arbitrary: k and k rule: wf_node_wf_chain.induct)
  case (1 s par prv nxt a cs)
  from "1.prems"(1) obtain nd where nd: "node_at s a = Some nd" "first_child nd = first_addr 0 cs"
     "wf_chain s a 0 0 cs" "a \<noteq> 0" "next_sibling nd = nxt" "parent nd = par"
    by (rule wf_node_view) auto
  have climb: "pre_climb s a = Some k"
    using pre_climb_wf[OF "1.prems"(1)] "1.prems"(2) by simp
  show ?case
  proof (cases cs)
    case Nil
    then show ?thesis using nd climb by (simp add: pre_forest_def step_def pre_inc_def)
  next
    case (Cons c cs')
    have "after s a 0 = Some k" using climb nd(4) by (simp add: after_def)
    from "1.IH"[OF nd(1) nd(3) this] Cons
    have "successively (step s) (pre_forest cs @ [k])" by simp
    moreover have "addr c \<noteq> 0" using nd(3) Cons by (auto elim!: wf_node_view)
    then have "step s a (addr c)"
      using nd Cons by (simp add: step_def pre_inc_def)
    ultimately show ?thesis using Cons by (simp add: pre_forest_def successively_Cons pre_kids)
  qed
next
  case (2 s par prv e)
  then show ?case by simp
next
  case (3 s par prv e c cs)
  from "3.prems" have wc: "wf_node s par prv (first_addr e cs) c" and wcs: "wf_chain s par (addr c) e cs"
    by simp_all
  show ?case
  proof (cases cs)
    case Nil
    then show ?thesis using "3.IH"(1)[OF wc] "3.prems"(2) by simp
  next
    case (Cons d ds)
    from wcs Cons have "addr d \<noteq> 0" by (auto elim!: wf_node_view)
    then have "after s par (first_addr e cs) = Some (addr d)" using Cons by (simp add: after_def)
    from "3.IH"(1)[OF wc this] have 1: "successively (step s) (pre c @ [addr d])" .
    from "3.IH"(2)[OF wcs "3.prems"(2)] Cons have 2: "successively (step s) (pre_forest cs @ [k])" by simp
    have "pre c @ pre_forest cs @ [k] = butlast (pre c @ [addr d]) @ (pre_forest cs @ [k])" by simp
    from 1 2 show ?thesis using Cons
      by (auto simp: successively_append_iff pre_kids[of d])
  qed
qed

section \<open>Size and the pre-order walk\<close>

text \<open>
  C3: \<^verbatim>\<open>size()\<close> should equal the number of pre-order increments from \<^verbatim>\<open>begin()\<close> to
  \<^verbatim>\<open>end()\<close>.  On the tree with two roots built by \<^verbatim>\<open>insert\<close> and \<^verbatim>\<open>insert_after\<close> the
  walk takes two increments, but \<^verbatim>\<open>size()\<close> reads the cached counter of \<^verbatim>\<open>head\<close>, which
  \<^verbatim>\<open>insert_after\<close> never updates, and returns one.
\<close>

theorem size_after_insert_after:
  "(case two_roots of None \<Rightarrow> None
    | Some (t, s) \<Rightarrow> Some (size_tree t s, size_walk t s))
   = Some (Some 1, Some (Inr 2))"
  by code_simp

section \<open>Moving a root out\<close>

text \<open>
  C5: \<^verbatim>\<open>move_out(D)\<close> on a root \<open>D\<close> with the children \<open>F\<close> and \<open>G\<close> should return a tree
  with \<^verbatim>\<open>begin()\<close> at \<open>D\<close> and \<^verbatim>\<open>size()\<close> three, and the size of the original tree should drop
  by three.  On the tree with the roots \<open>A\<close>, \<open>D\<close>, \<open>E\<close> the links are as the claim says
  (\<^verbatim>\<open>begin()\<close> of the result is \<open>D\<close>, and \<open>A\<close> and \<open>E\<close> point at each other), but
  \<^verbatim>\<open>move_out\<close> touches no counter: the new tree reports size zero and the original tree
  still reports five.
\<close>

theorem move_out_sizes:
  "(case three_roots of None \<Rightarrow> None
    | Some (t, a, d, e, s) \<Rightarrow>
       (case move_out 0 d s of None \<Rightarrow> None
        | Some (r, s') \<Rightarrow>
            Some (map_option node (begin_tree r s') = Some d,
                  map_option next_sibling (node_at s' a) = Some e,
                  map_option prev_sibling (node_at s' e) = Some a,
                  size_tree t s, size_tree t s', size_tree r s', size_walk r s')))
   = Some (True, True, True, Some 5, Some 5, Some 0, Some (Inr 3))"
  by code_simp

section \<open>Depth of a node and of the tree\<close>

lemma ex_wf: "wf_tree ex_tree ex_store ex_shape"
  by code_simp


lemma step_view:
  "step s x y \<Longrightarrow> \<exists>nd. x \<noteq> 0 \<and> node_at s x = Some nd \<and>
     (first_child nd \<noteq> 0 \<longrightarrow> y = first_child nd) \<and>
     (first_child nd = 0 \<longrightarrow> pre_climb s x = Some y)"
  by (auto simp: step_def pre_inc_def bind_eq_Some_conv split: if_splits)



lemma wf_tree_sentinels:
  assumes "wf_tree t s ts"
  obtains hn fn where "node_at s (head t) = Some hn" "node_at s (feet t) = Some fn"
    "next_sibling hn = first_addr (feet t) ts" "prev_sibling fn = last_addr (head t) ts"
    "parent fn = 0" "next_sibling fn = 0" "first_child fn = 0" "last_child fn = 0"
    "parent hn = 0" "prev_sibling hn = 0" "first_child hn = 0" "last_child hn = 0"
    "head t \<noteq> 0" "feet t \<noteq> 0" "head t \<noteq> feet t"
proof -
  from assms obtain hn fn where a: "node_at s (head t) = Some hn" "node_at s (feet t) = Some fn"
    "next_sibling hn = first_addr (feet t) ts" "prev_sibling fn = last_addr (head t) ts"
    "parent fn = 0" "next_sibling fn = 0" "first_child fn = 0" "last_child fn = 0"
    "parent hn = 0" "prev_sibling hn = 0" "first_child hn = 0" "last_child hn = 0"
    "head t \<noteq> feet t"
    by (auto simp: wf_tree_def split: option.splits)
  moreover from a(1,2) have "head t \<noteq> 0" "feet t \<noteq> 0"
    by (auto simp: node_at_def split: if_splits)
  ultimately show thesis using that by blast
qed

lemma wf_tree_succ:
  assumes "wf_tree t s ts"
  shows "successively (step s) (pre_forest ts @ [feet t])"
proof (cases ts)
  case Nil
  then show ?thesis by simp
next
  case (Cons c cs)
  from assms have ft: "feet t \<noteq> 0" by (rule wf_tree_sentinels)
  from assms have "wf_chain s 0 (head t) (feet t) ts" by (simp add: wf_tree_def)
  moreover have "after s 0 (feet t) = Some (feet t)" using ft by (simp add: after_def)
  ultimately show ?thesis using Cons step_succ(2) by blast
qed




section \<open>Equality of a subtree with itself\<close>

lemma count_to_last_wf:
  "wf_chain s par prv e cs \<Longrightarrow> cs \<noteq> [] \<Longrightarrow>
   \<exists>c. count_to_last s (last_addr x cs) (first_addr y cs) r = Some c"
proof (induction cs arbitrary: prv r x y)
  case Nil
  then show ?case by simp
next
  case (Cons c cs)
  show ?case
  proof (cases "addr c = last_addr x (c # cs)")
    case True
    then show ?thesis by (subst count_to_last.simps) simp
  next
    case False
    then have ne: "cs \<noteq> []" by (cases cs) auto
    from Cons.prems have wc: "wf_node s par prv (first_addr e cs) c" and wcs: "wf_chain s par (addr c) e cs"
      by simp_all
    from wc obtain nd where nd: "node_at s (addr c) = Some nd" "next_sibling nd = first_addr e cs"
      by (rule wf_node_view)
    from Cons.IH[OF wcs ne, of "addr c" e "r + 1"] obtain k where
      "count_to_last s (last_addr (addr c) cs) (first_addr e cs) (r + 1) = Some k" by blast
    then show ?thesis using False nd by (subst count_to_last.simps) simp
  qed
qed

lemma number_of_children_it_wf:
  assumes "wf_node s par prv nxt t"
  shows "\<exists>c. number_of_children_it s (addr t) = Some c"
proof -
  from assms obtain nd where nd: "node_at s (addr t) = Some nd"
    "first_child nd = first_addr 0 (kids t)" "last_child nd = last_addr 0 (kids t)"
    "wf_chain s (addr t) 0 0 (kids t)"
    by (rule wf_node_view)
  show ?thesis
  proof (cases "first_child nd = 0")
    case True
    then show ?thesis using nd by (simp add: number_of_children_it_def)
  next
    case False
    then have "kids t \<noteq> []" using nd(2) by auto
    from count_to_last_wf[OF nd(4) this, of 0 0 1] show ?thesis
      using nd False by (simp add: number_of_children_it_def)
  qed
qed

lemma count_siblings_wf:
  "wf_chain s par prv 0 cs \<Longrightarrow> cs \<noteq> [] \<Longrightarrow> \<exists>c. count_siblings s (first_addr y cs) r = Some c"
proof (induction cs arbitrary: prv r y)
  case Nil
  then show ?case by simp
next
  case (Cons c cs)
  from Cons.prems have wc: "wf_node s par prv (first_addr 0 cs) c" and wcs: "wf_chain s par (addr c) 0 cs"
    by simp_all
  from wc obtain nd where nd: "node_at s (addr c) = Some nd" "next_sibling nd = first_addr 0 cs"
    by (rule wf_node_view)
  show ?case
  proof (cases cs)
    case Nil
    then show ?thesis using nd by (subst count_siblings.simps) simp
  next
    case (Cons d ds)
    with Cons.IH[OF wcs, of 0 "r + 1"] obtain k where
      "count_siblings s (first_addr 0 cs) (r + 1) = Some k" by auto
    then show ?thesis using nd by (subst count_siblings.simps) simp
  qed
qed

lemma number_of_children_wf:
  assumes "wf_node s par prv nxt t"
  shows "\<exists>c. number_of_children s (addr t) = Some c"
proof -
  from assms obtain nd where nd: "node_at s (addr t) = Some nd"
    "first_child nd = first_addr 0 (kids t)" "wf_chain s (addr t) 0 0 (kids t)"
    by (rule wf_node_view)
  show ?thesis
  proof (cases "first_child nd = 0")
    case True
    then show ?thesis using nd by (simp add: number_of_children_def)
  next
    case False
    then have "kids t \<noteq> []" using nd(2) by auto
    from count_siblings_wf[OF nd(3) this, of 0 1] show ?thesis
      using nd False by (simp add: number_of_children_def)
  qed
qed

text \<open>Every node of a well-formed shape is the root of a well-formed shape.\<close>

lemma subtree_view:
  "wf_node s par prv nxt t \<Longrightarrow> after s par nxt = Some k \<Longrightarrow> x \<in> set (pre t) \<Longrightarrow>
     \<exists>par' prv' nxt' u k'. wf_node s par' prv' nxt' u \<and> addr u = x \<and> after s par' nxt' = Some k'"
  "wf_chain s par prv e ts \<Longrightarrow> after s par e = Some k \<Longrightarrow> x \<in> set (pre_forest ts) \<Longrightarrow>
     \<exists>par' prv' nxt' u k'. wf_node s par' prv' nxt' u \<and> addr u = x \<and> after s par' nxt' = Some k'"
proof (induction s par prv nxt t and s par prv e ts arbitrary: k and k rule: wf_node_wf_chain.induct)
  case (1 s par prv nxt a cs)
  show ?case
  proof (cases "x = a")
    case True
    with "1.prems" show ?thesis by (metis rtree.sel(1))
  next
    case False
    from "1.prems"(1) obtain nd where nd: "node_at s a = Some nd" "wf_chain s a 0 0 cs" "a \<noteq> 0"
      by (rule wf_node_view) auto
    have "after s a 0 = Some k"
      using pre_climb_wf[OF "1.prems"(1)] "1.prems"(2) nd(3) by (simp add: after_def)
    moreover from False "1.prems"(3) have "x \<in> set (pre_forest cs)" by (simp add: pre_forest_def)
    ultimately show ?thesis using "1.IH"[OF nd(1,2)] by blast
  qed
next
  case (2 s par prv e)
  then show ?case by simp
next
  case (3 s par prv e c cs)
  from "3.prems" have wc: "wf_node s par prv (first_addr e cs) c" and wcs: "wf_chain s par (addr c) e cs"
    by simp_all
  have "\<exists>k'. after s par (first_addr e cs) = Some k'"
  proof (cases cs)
    case Nil
    then show ?thesis using "3.prems"(2) by simp
  next
    case (Cons d ds)
    with wcs have "addr d \<noteq> 0" by (auto elim!: wf_node_view)
    then show ?thesis using Cons by (simp add: after_def)
  qed
  then obtain k' where k': "after s par (first_addr e cs) = Some k'" by blast
  from "3.prems"(3) consider "x \<in> set (pre c)" | "x \<in> set (pre_forest cs)" by auto
  then show ?case
  proof cases
    case 1
    then show ?thesis using "3.IH"(1)[OF wc k'] by blast
  next
    case 2
    then show ?thesis using "3.IH"(2)[OF wcs "3.prems"(2)] by blast
  qed
qed

lemma wf_tree_subtree:
  assumes "wf_tree t s ts" "x \<in> set (pre_forest ts)"
  shows "\<exists>par prv nxt u k. wf_node s par prv nxt u \<and> addr u = x \<and> after s par nxt = Some k"
proof -
  from assms(1) have ft: "feet t \<noteq> 0" by (rule wf_tree_sentinels)
  from assms(1) have "wf_chain s 0 (head t) (feet t) ts" by (simp add: wf_tree_def)
  moreover have "after s 0 (feet t) = Some (feet t)" using ft by (simp add: after_def)
  ultimately show ?thesis using subtree_view(2) assms(2) by blast
qed


lemma equal_loop_same:
  assumes refl: "\<And>x. f x x"
    and two: "pre_of_sibling s two = Some (Inr \<lparr>node = k, skip_current_children = False\<rparr>)"
  shows "successively (step s) zs \<Longrightarrow> zs \<noteq> [] \<Longrightarrow> last zs = k \<Longrightarrow>
     (\<forall>x \<in> set (butlast zs). \<exists>c. number_of_children_it s x = Some c) \<Longrightarrow>
     equal_loop t s f two \<lparr>node = hd zs, skip_current_children = False\<rparr>
        \<lparr>node = hd zs, skip_current_children = False\<rparr> = Some (Inr True)"
proof (induction zs)
  case Nil
  then show ?case by simp
next
  case (Cons x zs)
  show ?case
  proof (cases zs)
    case Nil
    with Cons.prems have "x = k" by simp
    then show ?thesis using two by (subst equal_loop.simps) simp
  next
    case (Cons y ys)
    with Cons.prems have st: "step s x y" and rest: "successively (step s) zs" "last zs = k"
      and nc: "\<exists>c. number_of_children_it s x = Some c"
      and ncs: "\<forall>x \<in> set (butlast zs). \<exists>c. number_of_children_it s x = Some c"
      by (simp_all add: successively_Cons)
    from Cons.IH[OF rest(1) _ rest(2) ncs] Cons
    have IH: "equal_loop t s f two \<lparr>node = y, skip_current_children = False\<rparr>
        \<lparr>node = y, skip_current_children = False\<rparr> = Some (Inr True)" by simp
    from step_view[OF st] obtain nd where nd: "node_at s x = Some nd" by auto
    from nc obtain c where c: "number_of_children_it s x = Some c" by blast
    from st have inc: "pre_inc s \<lparr>node = x, skip_current_children = False\<rparr>
        = Some (Inr \<lparr>node = y, skip_current_children = False\<rparr>)" by (simp add: step_def)
    show ?thesis using two nd c inc IH refl
      by (subst equal_loop.simps) simp
  qed
qed

text \<open>
  C9: for every node \<open>a\<close> of a well-formed tree and every reflexive comparator,
  \<^verbatim>\<open>equal_subtree(a, a, comparator)\<close> returns \<^verbatim>\<open>true\<close>.
\<close>

theorem equal_subtree_reflexive:
  assumes wf: "wf_tree t s ts" and a: "a \<in> set (pre_forest ts)" and refl: "\<And>x. f x x"
  shows "equal_subtree t s a a f = Some (Inr True)"
proof -
  from wf_tree_subtree[OF wf a] obtain par prv nxt u k where
    u: "wf_node s par prv nxt u" "addr u = a" "after s par nxt = Some k"
    by blast
  from u(1) obtain nd where nd: "node_at s (addr u) = Some nd"
    "first_child nd = first_addr 0 (kids u)" "last_child nd = last_addr 0 (kids u)"
    "wf_chain s (addr u) 0 0 (kids u)" "addr u \<noteq> 0"
    by (rule wf_node_view)
  from number_of_children_wf[OF u(1)] obtain c where c: "number_of_children s a = Some c"
    using u(2) by auto
  have climb: "pre_climb s a = Some k" using pre_climb_wf[OF u(1)] u(2,3) by simp
  have "equal_tree t s one_it (end_children a) one_it f = Some (Inr True)"
    if "begin_children s a = Some (Inr one_it)" for one_it
  proof (cases "kids u")
    case Nil
    with that nd u(2) have one: "one_it = end_children a"
      by (simp add: begin_children_def)
    have "pre_of_sibling s (end_children a) = Some (Inr \<lparr>node = k, skip_current_children = False\<rparr>)"
      using nd u(2) Nil climb by (simp add: pre_of_sibling_def end_children_def pre_inc_def)
    then show ?thesis unfolding one
      by (simp add: equal_tree_def) (subst equal_loop.simps, simp)
  next
    case (Cons c1 cs)
    then have ne: "kids u \<noteq> []" by simp
    from wf_chain_last[OF nd(4) ne, of 0] obtain ln where
      ln: "node_at s (last_addr 0 (kids u)) = Some ln" "parent ln = addr u" "next_sibling ln = 0"
        "last_addr 0 (kids u) \<noteq> 0"
      by blast
    have "pre_climb s (last_addr 0 (kids u)) = Some k"
      using ln nd(5) climb u(2) by (subst pre_climb.simps) simp
    then have two: "pre_of_sibling s (end_children a)
        = Some (Inr \<lparr>node = k, skip_current_children = False\<rparr>)"
      using nd u(2) ln by (simp add: pre_of_sibling_def end_children_def pre_inc_def)
    from nd(4) Cons have "wf_node s (addr u) 0 (first_addr 0 cs) c1" by simp
    then obtain n1 where n1: "node_at s (addr c1) = Some n1" "addr c1 \<noteq> 0"
      by (rule wf_node_view)
    with that nd u(2) Cons have one: "one_it = \<lparr>node = addr c1, skip_current_children = False,
        parent_ptr = parent n1\<rparr>"
      by (simp add: begin_children_def sibling_iterator_of_def)
    have pre_one: "pre_of_sibling s one_it
       = Some (Inr \<lparr>node = addr c1, skip_current_children = False\<rparr>)"
      using one n1 by (simp add: pre_of_sibling_def)
    have "after s (addr u) 0 = Some k" using climb u(2) nd(5) by (simp add: after_def)
    from step_succ(2)[OF nd(4) this ne]
    have suc: "successively (step s) (pre_forest (kids u) @ [k])" .
    have nci: "\<forall>x \<in> set (butlast (pre_forest (kids u) @ [k])).
        \<exists>c. number_of_children_it s x = Some c"
    proof
      fix x assume "x \<in> set (butlast (pre_forest (kids u) @ [k]))"
      then have "x \<in> set (pre_forest (kids u))" by (simp add: butlast_append)
      from subtree_view(2)[OF nd(4) \<open>after s (addr u) 0 = Some k\<close> this]
      show "\<exists>c. number_of_children_it s x = Some c"
        using number_of_children_it_wf by blast
    qed
    have "hd (pre_forest (kids u) @ [k]) = addr c1" using Cons by (simp add: pre_kids)
    with equal_loop_same[where t = t and f = f, OF refl two suc _ _ nci]
    have "equal_loop t s f (end_children a) \<lparr>node = addr c1, skip_current_children = False\<rparr>
        \<lparr>node = addr c1, skip_current_children = False\<rparr> = Some (Inr True)"
      by simp
    then show ?thesis using pre_one by (simp add: equal_tree_def)
  qed
  moreover have "\<exists>one_it. begin_children s a = Some (Inr one_it)"
  proof (cases "kids u")
    case Nil
    then show ?thesis using nd u(2) by (simp add: begin_children_def)
  next
    case (Cons c1 cs)
    with nd(4) have "wf_node s (addr u) 0 (first_addr 0 cs) c1" by simp
    then obtain n1 where n1: "node_at s (addr c1) = Some n1" "addr c1 \<noteq> 0"
      by (rule wf_node_view)
    then show ?thesis using nd u(2) Cons
      by (simp add: begin_children_def sibling_iterator_of_def)
  qed
  ultimately show ?thesis
    using nd(1) u(2) refl c by (auto simp: equal_subtree_def)
qed

theorem equal_subtree_reflexive_witness:
  "wf_tree ex_tree ex_store ex_shape \<and> 4 \<in> set (pre_forest ex_shape) \<and>
   equal_subtree ex_tree ex_store 4 4 (=) = Some (Inr True)"
proof -
  have wf: "wf_tree ex_tree ex_store ex_shape" by code_simp
  have a: "4 \<in> set (pre_forest ex_shape)" by code_simp
  from equal_subtree_reflexive[OF wf a, of "(=)"] wf a show ?thesis by simp
qed

section \<open>Lookups past the last child\<close>

lemma child_loop_wf:
  "wf_chain s par prv 0 cs \<Longrightarrow>
   child_loop s i (first_addr 0 cs) =
     (if i < length cs then Some (Inr (addr (cs ! i)))
      else if i = length cs then Some (Inr 0) else Some (Inl AssertFail))"
proof (induction cs arbitrary: i prv)
  case Nil
  then show ?case by (cases i) simp_all
next
  case (Cons c cs)
  from Cons.prems have wc: "wf_node s par prv (first_addr 0 cs) c" and wcs: "wf_chain s par (addr c) 0 cs"
    by simp_all
  from wc obtain nd where nd: "node_at s (addr c) = Some nd" "next_sibling nd = first_addr 0 cs"
    "addr c \<noteq> 0"
    by (rule wf_node_view)
  show ?case
  proof (cases i)
    case 0
    then show ?thesis by simp
  next
    case (Suc j)
    then show ?thesis using nd Cons.IH[OF wcs, of j] by simp
  qed
qed

lemma sibling_steps_wf:
  "wf_chain s par prv 0 cs \<Longrightarrow> cs \<noteq> [] \<Longrightarrow> length cs \<le> i \<Longrightarrow>
   sibling_steps s i (first_addr y cs) = Some (Inl RangeError)"
proof (induction cs arbitrary: i prv y)
  case Nil
  then show ?case by simp
next
  case (Cons c cs)
  from Cons.prems have wc: "wf_node s par prv (first_addr 0 cs) c" and wcs: "wf_chain s par (addr c) 0 cs"
    by simp_all
  from wc obtain nd where nd: "node_at s (addr c) = Some nd" "next_sibling nd = first_addr 0 cs"
    by (rule wf_node_view)
  from Cons.prems(3) obtain j where j: "i = Suc j" "length cs \<le> j" by (cases i) auto
  show ?case
  proof (cases cs)
    case Nil
    then show ?thesis using nd j by simp
  next
    case (Cons d ds)
    with wcs have "addr d \<noteq> 0" by (auto elim!: wf_node_view)
    moreover from Cons.IH[OF wcs _ j(2), of 0] Cons
    have "sibling_steps s j (first_addr 0 cs) = Some (Inl RangeError)" by simp
    ultimately show ?thesis using nd j Cons by simp
  qed
qed

lemma nth_child_walk_wf:
  "wf_chain s par prv 0 cs \<Longrightarrow> length cs \<le> i \<Longrightarrow>
   nth_child_walk s i (first_addr 0 cs) = Some (Inl RangeError)"
proof (induction cs arbitrary: i prv)
  case Nil
  then show ?case by (cases i) simp_all
next
  case (Cons c cs)
  from Cons.prems have wc: "wf_node s par prv (first_addr 0 cs) c" and wcs: "wf_chain s par (addr c) 0 cs"
    by simp_all
  from wc obtain nd where nd: "node_at s (addr c) = Some nd" "next_sibling nd = first_addr 0 cs"
    "addr c \<noteq> 0"
    by (rule wf_node_view)
  from Cons.prems(2) obtain j where j: "i = Suc j" "length cs \<le> j" by (cases i) auto
  then show ?case using nd Cons.IH[OF wcs j(2)] by simp
qed

lemma path_steps_append:
  "path_steps s later (p @ q) walk =
     (case path_steps s later p walk of
        None \<Rightarrow> None
      | Some (Inl e) \<Rightarrow> Some (Inl e)
      | Some (Inr w) \<Rightarrow> path_steps s (later \<or> p \<noteq> []) q w)"
proof (induction p arbitrary: later walk)
  case Nil
  then show ?case by simp
next
  case (Cons n p)
  let ?w = "if later then map_option first_child (node_at s walk) else Some walk"
  show ?case
  proof (cases ?w)
    case None
    then show ?thesis by simp
  next
    case (Some w0)
    show ?thesis
    proof (cases "w0 = 0")
      case True
      then show ?thesis using Some by simp
    next
      case False
      show ?thesis
      proof (cases "sibling_steps s (unat n) w0")
        case None
        then show ?thesis using Some False by simp
      next
        case (Some r)
        then show ?thesis using \<open>?w = Some w0\<close> False
          by (cases r) (simp_all add: Cons.IH cong: option.case_cong sum.case_cong)
      qed
    qed
  qed
qed

lemma chain_nth:
  "wf_chain s par prv e cs \<Longrightarrow> i < length cs \<Longrightarrow>
   wf_node s par (if i = 0 then prv else addr (cs ! (i - 1)))
     (if Suc i < length cs then addr (cs ! Suc i) else e) (cs ! i)"
proof (induction cs arbitrary: i prv)
  case Nil
  then show ?case by simp
next
  case (Cons c cs)
  from Cons.prems have wc: "wf_node s par prv (first_addr e cs) c" and wcs: "wf_chain s par (addr c) e cs"
    by simp_all
  show ?case
  proof (cases i)
    case 0
    then show ?thesis using wc by (cases cs) simp_all
  next
    case (Suc j)
    with Cons.prems have "j < length cs" by simp
    from Cons.IH[OF wcs this] show ?thesis using Suc by (cases j) (auto split: if_splits)
  qed
qed

lemma wf_chain_drop:
  "wf_chain s par prv e cs \<Longrightarrow> i < length cs \<Longrightarrow> \<exists>prv'. wf_chain s par prv' e (drop i cs)"
proof (induction cs arbitrary: i prv)
  case Nil
  then show ?case by simp
next
  case (Cons c cs)
  show ?case
  proof (cases i)
    case 0
    with Cons.prems(1) show ?thesis by auto
  next
    case (Suc j)
    with Cons.prems have "wf_chain s par (addr c) e cs" "j < length cs" by simp_all
    from Cons.IH[OF this] Suc show ?thesis by simp
  qed
qed

lemma first_addr_drop: "i < length cs \<Longrightarrow> first_addr y (drop i cs) = addr (cs ! i)"
  by (cases "drop i cs") (auto simp: hd_drop_conv_nth[symmetric] dest: arg_cong[where f = hd])

lemma sibling_steps_end:
  "wf_chain s par prv e cs \<Longrightarrow> node_at s e = Some fn \<Longrightarrow> next_sibling fn = 0 \<Longrightarrow>
   cs \<noteq> [] \<Longrightarrow> length cs < k \<Longrightarrow>
   sibling_steps s k (first_addr y cs) = Some (Inl RangeError)"
proof (induction cs arbitrary: k prv y)
  case Nil
  then show ?case by simp
next
  case (Cons c cs)
  from Cons.prems(1) have wc: "wf_node s par prv (first_addr e cs) c"
    and wcs: "wf_chain s par (addr c) e cs" by simp_all
  from wc obtain nd where nd: "node_at s (addr c) = Some nd" "next_sibling nd = first_addr e cs"
    by (rule wf_node_view)
  from Cons.prems(5) obtain j where j: "k = Suc j" "length cs < j" by (cases k) auto
  show ?case
  proof (cases cs)
    case Nil
    from j(2) obtain j' where j': "j = Suc j'" by (cases j) auto
    from Cons.prems(2) have "e \<noteq> 0" by (auto simp: node_at_def split: if_splits)
    then show ?thesis using Nil nd j j' Cons.prems(2,3) by simp
  next
    case (Cons d ds)
    with wcs have "addr d \<noteq> 0" by (auto elim!: wf_node_view)
    moreover from Cons.IH[OF wcs Cons.prems(2,3) _ j(2), of 0] Cons
    have "sibling_steps s j (first_addr 0 cs) = Some (Inl RangeError)" by simp
    ultimately show ?thesis using nd j Cons by simp
  qed
qed

lemma first_step_children:
  assumes "wf_chain s par prv 0 cs" "i < length cs" "length cs \<le> i + unat n"
  shows "iterator_from_path s (n # rest) (addr (cs ! i)) = Some (Inl RangeError)"
proof -
  from wf_chain_drop[OF assms(1,2)] obtain prv' where w: "wf_chain s par prv' 0 (drop i cs)"
    by blast
  from assms(2) have ne: "drop i cs \<noteq> []" by simp
  from assms(2,3) have "length (drop i cs) \<le> unat n" by simp
  from sibling_steps_wf[OF w ne this, of 0] first_addr_drop[OF assms(2), of 0]
  have st: "sibling_steps s (unat n) (addr (cs ! i)) = Some (Inl RangeError)" by simp
  from chain_nth[OF assms(1,2)] have "addr (cs ! i) \<noteq> 0" by (auto elim!: wf_node_view)
  with st show ?thesis by (simp add: iterator_from_path_def)
qed

lemma first_step_roots:
  assumes "wf_tree t s ts" "i < length ts" "length ts < i + unat n"
  shows "iterator_from_path s (n # rest) (addr (ts ! i)) = Some (Inl RangeError)"
proof -
  from assms(1) obtain hn fn where f: "node_at s (feet t) = Some fn" "next_sibling fn = 0"
    by (rule wf_tree_sentinels)
  from assms(1) have ch: "wf_chain s 0 (head t) (feet t) ts" by (simp add: wf_tree_def)
  from wf_chain_drop[OF ch assms(2)] obtain prv' where w: "wf_chain s 0 prv' (feet t) (drop i ts)"
    by blast
  from assms(2) have ne: "drop i ts \<noteq> []" by simp
  from assms(2,3) have "length (drop i ts) < unat n" by simp
  from sibling_steps_end[OF w f ne this, of 0] first_addr_drop[OF assms(2), of 0]
  have st: "sibling_steps s (unat n) (addr (ts ! i)) = Some (Inl RangeError)" by simp
  from chain_nth[OF ch assms(2)] have "addr (ts ! i) \<noteq> 0" by (auto elim!: wf_node_view)
  with st show ?thesis by (simp add: iterator_from_path_def)
qed

text \<open>
  C6, as the code has it.  Let \<open>u\<close> be a well-formed node with \<open>length (kids u)\<close> children.
  \<^verbatim>\<open>child(position, n)\<close> throws nothing: with \<open>n\<close> equal to the number of children it
  returns the null iterator, and beyond that its \<^verbatim>\<open>assert\<close> fails.
  \<^verbatim>\<open>iterator_from_path\<close> throws \<^verbatim>\<open>std::range_error\<close> when a step asks for more siblings than
  there are: a step after the first, when its index is at or beyond the number of children
  of the node reached so far; the first step from a top that is the \<open>i\<close>-th child of \<open>u\<close>, when
  \<open>i\<close> plus its index is at or beyond the number of children of \<open>u\<close>; the first step from a
  top that is the \<open>i\<close>-th root, when \<open>i\<close> plus its index is beyond the number of roots.
  \<^verbatim>\<open>move_in_as_nth_child\<close> with a non-empty other tree throws it when \<open>n\<close> exceeds the
  number of children.
\<close>

theorem lookups_out_of_range:
  assumes u: "wf_node s par prv nxt u"
  shows "(unat n = length (kids u) \<longrightarrow> child s (addr u) n = Some (Inr 0)) \<and>
         (length (kids u) < unat n \<longrightarrow> child s (addr u) n = Some (Inl AssertFail)) \<and>
         (length (kids u) \<le> unat n \<and> pth \<noteq> [] \<and>
            iterator_from_path s pth topn = Some (Inr (addr u)) \<longrightarrow>
            iterator_from_path s (pth @ n # rest) topn = Some (Inl RangeError)) \<and>
         (i < length (kids u) \<and> length (kids u) \<le> i + unat n \<longrightarrow>
            iterator_from_path s (n # rest) (addr (kids u ! i)) = Some (Inl RangeError)) \<and>
         (wf_tree t s ts \<and> i < length ts \<and> length ts < i + unat n \<longrightarrow>
            iterator_from_path s (n # rest) (addr (ts ! i)) = Some (Inl RangeError)) \<and>
         (length (kids u) < unat n \<and> wf_tree other s ots \<and> ots \<noteq> [] \<longrightarrow>
            move_in_as_nth_child (addr u) n other s = Some (Inl RangeError))"
proof -
  from u obtain nd where nd: "node_at s (addr u) = Some nd"
    "first_child nd = first_addr 0 (kids u)" "wf_chain s (addr u) 0 0 (kids u)"
    by (rule wf_node_view)
  have 1: "child s (addr u) n = Some (Inr 0)" if "unat n = length (kids u)"
    using nd that child_loop_wf[OF nd(3), of "unat n"] by (simp add: child_def)
  have 2: "child s (addr u) n = Some (Inl AssertFail)" if "length (kids u) < unat n"
    using nd that child_loop_wf[OF nd(3), of "unat n"] by (simp add: child_def)
  have 3: "iterator_from_path s (pth @ n # rest) topn = Some (Inl RangeError)"
    if "length (kids u) \<le> unat n" "pth \<noteq> []" "iterator_from_path s pth topn = Some (Inr (addr u))"
  proof (cases "kids u")
    case Nil
    then show ?thesis using that nd
      by (simp add: iterator_from_path_def path_steps_append)
  next
    case (Cons c cs)
    then have ne: "kids u \<noteq> []" by simp
    from nd(3) Cons have "addr c \<noteq> 0" by (auto elim!: wf_node_view)
    moreover from sibling_steps_wf[OF nd(3) ne that(1), of 0]
    have "sibling_steps s (unat n) (first_addr 0 (kids u)) = Some (Inl RangeError)" .
    ultimately show ?thesis using that nd Cons
      by (simp add: iterator_from_path_def path_steps_append)
  qed
  have 4: "move_in_as_nth_child (addr u) n other s = Some (Inl RangeError)"
    if "length (kids u) < unat n" "wf_tree other s ots" "ots \<noteq> []"
  proof -
    from that(2) obtain oh ofe where o: "node_at s (head other) = Some oh"
      "node_at s (feet other) = Some ofe" "next_sibling oh = first_addr (feet other) ots"
      by (rule wf_tree_sentinels)
    from that(2) have "distinct (feet other # pre_forest ots)" by (simp add: wf_tree_def)
    with that(3) have "first_addr (feet other) ots \<noteq> feet other"
      by (cases ots) (auto simp: pre_kids)
    with o have ne: "next_sibling oh \<noteq> feet other" by simp
    from that(1) have n0: "n \<noteq> 0" by auto
    then have "unat (n - 1) = unat n - 1" by (rule unat_minus_one)
    with that(1) have "length (kids u) \<le> unat (n - 1)" by simp
    from nth_child_walk_wf[OF nd(3) this]
    show ?thesis using o ne nd n0 by (simp add: move_in_as_nth_child_def)
  qed
  have 5: "iterator_from_path s (n # rest) (addr (kids u ! i)) = Some (Inl RangeError)"
    if "i < length (kids u)" "length (kids u) \<le> i + unat n"
    using nd(3) that by (rule first_step_children)
  have 6: "iterator_from_path s (n # rest) (addr (ts ! i)) = Some (Inl RangeError)"
    if "wf_tree t s ts" "i < length ts" "length ts < i + unat n"
    using that by (rule first_step_roots)
  from 1 2 3 4 5 6 show ?thesis by blast
qed

theorem lookups_out_of_range_witness:
  "wf_node ex_store 0 3 5 (RNode 4 [RNode 6 [], RNode 7 []]) \<and>
   wf_tree ex_tree ex_store ex_shape \<and>
   child ex_store 4 2 = Some (Inr 0) \<and>
   child ex_store 4 3 = Some (Inl AssertFail) \<and>
   iterator_from_path ex_store [1] 3 = Some (Inr 4) \<and>
   iterator_from_path ex_store ([1] @ 2 # [0]) 3 = Some (Inl RangeError) \<and>
   iterator_from_path ex_store [2, 0] 6 = Some (Inl RangeError) \<and>
   iterator_from_path ex_store [4, 0] 3 = Some (Inl RangeError) \<and>
   move_in_as_nth_child 4 3 ex_tree ex_store = Some (Inl RangeError)"
proof -
  have wf: "wf_node ex_store 0 3 5 (RNode 4 [RNode 6 [], RNode 7 []])" by code_simp
  have wt: "wf_tree ex_tree ex_store ex_shape" by code_simp
  have p: "iterator_from_path ex_store [1] 3 = Some (Inr 4)" by code_simp
  have ne: "ex_shape \<noteq> []" "length ex_shape = 3" "addr (ex_shape ! 0) = 3"
    by (simp_all add: ex_shape_def)
  note th = lookups_out_of_range[OF wf, where pth = "[1]" and topn = 3 and rest = "[0]"
      and i = 0 and t = ex_tree and ts = ex_shape and other = ex_tree and ots = ex_shape]
  from th[where n = 2] th[where n = 3] th[where n = 4] wf wt p ne
  show ?thesis by simp
qed

text \<open>The claim as stated fails for \<^verbatim>\<open>child\<close> at the node at address \<open>4\<close>, which has two
  children: \<^verbatim>\<open>child(4, 2)\<close> returns the null iterator without any error, and
  \<^verbatim>\<open>child(4, 3)\<close> fails an assertion instead of throwing a range error.\<close>

theorem child_counterexample:
  "child ex_store 4 2 = Some (Inr 0) \<and> child ex_store 4 3 = Some (Inl AssertFail) \<and>
   number_of_children ex_store 4 = Some 2"
  by code_simp

text \<open>A first step from a root that asks for exactly the number of roots from there on
  ends on the \<^verbatim>\<open>feet\<close> sentinel, which \<^verbatim>\<open>iterator_from_path\<close> returns without an error: the
  chain of roots is closed by \<^verbatim>\<open>feet\<close> and not by a null pointer.\<close>

lemma first_step_onto_feet:
  "iterator_from_path ex_store [3] 3 = Some (Inr (feet ex_tree)) \<and>
   iterator_from_path ex_store [4] 3 = Some (Inl RangeError) \<and> length ex_shape = 3"
  by code_simp

section \<open>Paths: encoding and decoding\<close>

lemma sibling_steps_nth:
  "wf_chain s par prv e cs \<Longrightarrow> i < length cs \<Longrightarrow>
   sibling_steps s i (first_addr y cs) = Some (Inr (addr (cs ! i)))"
proof (induction cs arbitrary: i prv y)
  case Nil
  then show ?case by simp
next
  case (Cons c cs)
  from Cons.prems have wc: "wf_node s par prv (first_addr e cs) c" and wcs: "wf_chain s par (addr c) e cs"
    by simp_all
  from wc obtain nd where nd: "node_at s (addr c) = Some nd" "next_sibling nd = first_addr e cs"
    by (rule wf_node_view)
  show ?case
  proof (cases i)
    case 0
    then show ?thesis by simp
  next
    case (Suc j)
    with Cons.prems have j: "j < length cs" by simp
    then obtain d ds where cs: "cs = d # ds" by (cases cs) auto
    with wcs have "addr d \<noteq> 0" by (auto elim!: wf_node_view)
    with Cons.IH[OF wcs j, of e] show ?thesis using Suc nd cs by simp
  qed
qed

text \<open>Counting back from the child with index \<open>i\<close> reaches the first child.\<close>

lemma prev_count_nth:
  assumes ch: "wf_chain s par 0 e cs"
  shows "i < length cs \<Longrightarrow> (\<forall>j \<le> i. addr (cs ! j) \<noteq> topn) \<Longrightarrow> (\<forall>j < i. addr (cs ! j) \<noteq> hp) \<Longrightarrow>
     prev_count s hp topn (addr (cs ! i)) num = Some (addr (cs ! 0), num + of_nat i)"
proof (induction i arbitrary: num)
  case 0
  from chain_nth[OF ch 0(1)] obtain nd where "node_at s (addr (cs ! 0)) = Some nd"
    "prev_sibling nd = 0"
    by (rule wf_node_view) auto
  then show ?case using 0 by (subst prev_count.simps) simp
next
  case (Suc i)
  from chain_nth[OF ch Suc.prems(1)] obtain nd where nd: "node_at s (addr (cs ! Suc i)) = Some nd"
    "prev_sibling nd = addr (cs ! i)"
    by (rule wf_node_view) auto
  from Suc.prems have i: "i < length cs" by simp
  from chain_nth[OF ch i] have nz: "addr (cs ! i) \<noteq> 0" by (rule wf_node_view)
  from Suc.prems have "addr (cs ! Suc i) \<noteq> topn" "addr (cs ! i) \<noteq> hp" by auto
  moreover have "prev_count s hp topn (addr (cs ! i)) (num + 1) = Some (addr (cs ! 0), num + 1 + of_nat i)"
    using Suc.IH[OF i, of "num + 1"] Suc.prems by auto
  ultimately show ?case using nd nz
    by (subst prev_count.simps) (simp add: add.assoc add.commute)
qed


lemma path_loop_unfold:
  "path_loop s hp topn w P =
     (if P \<noteq> [] then node_at s w \<bind> (\<lambda>n. path_body s hp topn (parent n) P)
      else path_body s hp topn w P)"
  by (subst path_loop.simps) (simp add: path_body_def map_option_case split: option.splits)

lemma path_body_level:
  assumes ch: "wf_chain s a 0 0 cs" and a: "a \<noteq> 0" and i: "i < length cs"
    and nt: "\<forall>j \<le> i. addr (cs ! j) \<noteq> topn" and nh: "\<forall>j < i. addr (cs ! j) \<noteq> hp"
  shows "path_body s hp topn (addr (cs ! i)) P = path_body s hp topn a (P @ [of_nat i])"
proof -
  have pc: "prev_count s hp topn (addr (cs ! i)) 0 = Some (addr (cs ! 0), of_nat i)"
    using prev_count_nth[OF ch i nt nh, of 0] by simp
  from i have 0: "0 < length cs" by (cases cs) auto
  from chain_nth[OF ch 0] obtain n0 where n0: "node_at s (addr (cs ! 0)) = Some n0" "parent n0 = a"
    by (rule wf_node_view)
  from nt have "addr (cs ! 0) \<noteq> topn" by simp
  then show ?thesis using pc n0 a
    by (simp add: path_body_def[of s hp topn "addr (cs ! i)"] path_loop_unfold)
qed

lemma path_body_top:
  "node_at s topn = Some nd \<Longrightarrow> path_body s hp topn topn P = Some (P @ [0])"
  by (simp add: path_body_def prev_count.simps)

lemma nth_in_pre_forest:
  assumes "i < length cs"
  shows "set (pre (cs ! i)) \<subseteq> set (pre_forest cs)"
proof -
  from assms have "cs ! i \<in> set cs" by simp
  then show ?thesis by (auto simp: pre_forest_def)
qed

lemma addr_in_pre [simp]: "addr u \<in> set (pre u)"
  by (cases u) simp

lemma kids_in_pre: "set (pre_forest (kids u)) \<subseteq> set (pre u)"
  by (cases u) (auto simp: pre_forest_def)

lemma encode_path:
  "wf_node s par prv nxt u \<Longrightarrow> at_path u is x \<Longrightarrow> topn \<notin> set (pre_forest (kids u)) \<Longrightarrow>
   hp \<notin> set (pre_forest (kids u)) \<Longrightarrow>
   path_loop s hp topn x [] = path_body s hp topn (addr u) (rev (map of_nat is))"
proof (induction "is" arbitrary: u par prv nxt)
  case Nil
  then show ?case by (simp add: path_loop_unfold)
next
  case (Cons i "is")
  from Cons.prems(2) have i: "i < length (kids u)" and x: "at_path (kids u ! i) is x" by simp_all
  from Cons.prems(1) obtain nd where nd: "node_at s (addr u) = Some nd"
    and ch: "wf_chain s (addr u) 0 0 (kids u)" and nz: "addr u \<noteq> 0"
    by (rule wf_node_view)
  let ?c = "kids u ! i"
  have sub: "set (pre ?c) \<subseteq> set (pre_forest (kids u))" using i by (rule nth_in_pre_forest)
  then have sub': "set (pre_forest (kids ?c)) \<subseteq> set (pre_forest (kids u))"
    using kids_in_pre[of ?c] by blast
  have t1: "topn \<notin> set (pre_forest (kids ?c))" using sub' Cons.prems(3) by auto
  have t2: "hp \<notin> set (pre_forest (kids ?c))" using sub' Cons.prems(4) by auto
  have "path_loop s hp topn x [] = path_body s hp topn (addr ?c) (rev (map of_nat is))"
    by (rule Cons.IH[OF chain_nth[OF ch i] x t1 t2])
  also have "\<dots> = path_body s hp topn (addr u) (rev (map of_nat is) @ [of_nat i])"
  proof (rule path_body_level[OF ch nz i])
    show "\<forall>j \<le> i. addr (kids u ! j) \<noteq> topn"
    proof (intro allI impI)
      fix j assume "j \<le> i"
      with i have "j < length (kids u)" by simp
      from nth_in_pre_forest[OF this] have "addr (kids u ! j) \<in> set (pre_forest (kids u))"
        by auto
      with Cons.prems(3) show "addr (kids u ! j) \<noteq> topn" by auto
    qed
    show "\<forall>j < i. addr (kids u ! j) \<noteq> hp"
    proof (intro allI impI)
      fix j assume "j < i"
      with i have "j < length (kids u)" by simp
      from nth_in_pre_forest[OF this] have "addr (kids u ! j) \<in> set (pre_forest (kids u))"
        by auto
      with Cons.prems(4) show "addr (kids u ! j) \<noteq> hp" by auto
    qed
  qed
  finally show ?case by simp
qed

lemma decode_path:
  "wf_node s par prv nxt u \<Longrightarrow> at_path u is x \<Longrightarrow> \<forall>i \<in> set is. i < 2 ^ 64 \<Longrightarrow>
   path_steps s True (map of_nat is) (addr u) = Some (Inr x)"
proof (induction "is" arbitrary: u par prv nxt)
  case Nil
  then show ?case by simp
next
  case (Cons i "is")
  from Cons.prems(2) have i: "i < length (kids u)" and x: "at_path (kids u ! i) is x" by simp_all
  from Cons.prems(1) obtain nd where nd: "node_at s (addr u) = Some nd"
     "first_child nd = first_addr 0 (kids u)" "wf_chain s (addr u) 0 0 (kids u)"
    by (rule wf_node_view)
  from i obtain c cs where k: "kids u = c # cs" by (cases "kids u") auto
  with nd(3) have fz: "addr c \<noteq> 0" by (auto elim!: wf_node_view)
  from Cons.prems(3) have "i < 2 ^ 64" by simp
  then have un: "unat (of_nat i :: size_t) = i" by (simp add: unat_of_nat)
  have IH: "path_steps s True (map of_nat is) (addr (kids u ! i)) = Some (Inr x)"
    using Cons.IH[OF chain_nth[OF nd(3) i] x] Cons.prems(3) by simp
  from sibling_steps_nth[OF nd(3) i, of 0]
  show ?case using nd k fz un IH by simp
qed

lemma at_path_exists: "x \<in> set (pre u) \<Longrightarrow> \<exists>is. at_path u is x \<and> (\<forall>i \<in> set is. i < length (pre u))"
proof (induction u)
  case (RNode a cs)
  show ?case
  proof (cases "x = a")
    case True
    then have "at_path (RNode a cs) [] x \<and> (\<forall>i \<in> set []. i < length (pre (RNode a cs)))" by simp
    then show ?thesis by (rule exI)
  next
    case False
    with RNode.prems obtain c where c: "c \<in> set cs" "x \<in> set (pre c)" by auto
    then obtain i where i: "i < length cs" "cs ! i = c" by (auto simp: in_set_conv_nth)
    from RNode.IH[OF c] obtain ps where ps: "at_path c ps x" "\<forall>i \<in> set ps. i < length (pre c)" by blast
    have "length cs \<le> length (concat (map pre cs))"
    proof (induction cs)
      case Nil then show ?case by simp
    next
      case (Cons d ds)
      have "1 \<le> length (pre d)" by (cases d) simp
      with Cons show ?case by simp
    qed
    moreover have "length (pre c) \<le> length (concat (map pre cs))"
      using c(1) by (induction cs) auto
    ultimately have "at_path (RNode a cs) (i # ps) x \<and> (\<forall>j \<in> set (i # ps). j < length (pre (RNode a cs)))"
      using i ps by auto
    then show ?thesis by blast
  qed
qed


lemma subtrees_wf:
  "wf_node s par prv nxt v \<Longrightarrow> u \<in> set (subtrees v) \<Longrightarrow>
     \<exists>par' prv' nxt'. wf_node s par' prv' nxt' u"
  "wf_chain s par prv e ts \<Longrightarrow> u \<in> set (subtrees_forest ts) \<Longrightarrow>
     \<exists>par' prv' nxt'. wf_node s par' prv' nxt' u"
proof (induction s par prv nxt v and s par prv e ts rule: wf_node_wf_chain.induct)
  case (1 s par prv nxt a cs)
  show ?case
  proof (cases "u = RNode a cs")
    case True
    with "1.prems"(1) show ?thesis by blast
  next
    case False
    from "1.prems"(1) obtain nd where nd: "node_at s a = Some nd" "wf_chain s a 0 0 cs"
      by (rule wf_node_view) auto
    from False "1.prems"(2) have "u \<in> set (subtrees_forest cs)" by (simp add: subtrees_forest_def)
    with "1.IH"[OF nd] show ?thesis by blast
  qed
next
  case (2 s par prv e)
  then show ?case by (simp add: subtrees_forest_def)
next
  case (3 s par prv e c cs)
  from "3.prems" have wc: "wf_node s par prv (first_addr e cs) c" and wcs: "wf_chain s par (addr c) e cs"
    by simp_all
  from "3.prems"(2) consider "u \<in> set (subtrees c)" | "u \<in> set (subtrees_forest cs)"
    by (auto simp: subtrees_forest_def)
  then show ?case
  proof cases
    case 1
    then show ?thesis using "3.IH"(1)[OF wc] by blast
  next
    case 2
    then show ?thesis using "3.IH"(2)[OF wcs] by blast
  qed
qed

lemma member_pre_forest:
  assumes "c \<in> set cs"
  shows "set (pre c) \<subseteq> set (pre_forest cs)" "distinct (pre_forest cs) \<Longrightarrow> distinct (pre c)"
proof -
  from assms obtain as bs where "cs = as @ c # bs" by (auto simp: in_set_conv_decomp)
  then have eq: "pre_forest cs = pre_forest as @ pre c @ pre_forest bs"
    by (simp add: pre_forest_def)
  show "set (pre c) \<subseteq> set (pre_forest cs)" unfolding eq by auto
  show "distinct (pre_forest cs) \<Longrightarrow> distinct (pre c)" unfolding eq by simp
qed

lemma subtrees_pre:
  "u \<in> set (subtrees v) \<Longrightarrow>
     set (pre u) \<subseteq> set (pre v) \<and> (distinct (pre v) \<longrightarrow> distinct (pre u))"
proof (induction v)
  case (RNode a cs)
  show ?case
  proof (cases "u = RNode a cs")
    case True
    then show ?thesis by simp
  next
    case False
    with RNode.prems obtain c where c: "c \<in> set cs" "u \<in> set (subtrees c)" by auto
    from RNode.IH[OF c] have IH: "set (pre u) \<subseteq> set (pre c)" "distinct (pre c) \<longrightarrow> distinct (pre u)"
      by simp_all
    from member_pre_forest[OF c(1)] IH show ?thesis by (auto simp: pre_kids)
  qed
qed

lemma subtrees_forest_pre:
  assumes "u \<in> set (subtrees_forest ts)"
  shows "set (pre u) \<subseteq> set (pre_forest ts)" "distinct (pre_forest ts) \<Longrightarrow> distinct (pre u)"
proof -
  from assms obtain c where c: "c \<in> set ts" "u \<in> set (subtrees c)"
    by (auto simp: subtrees_forest_def)
  from subtrees_pre[OF c(2)] member_pre_forest[OF c(1)]
  show "set (pre u) \<subseteq> set (pre_forest ts)" "distinct (pre_forest ts) \<Longrightarrow> distinct (pre u)"
    by auto
qed

lemma distinct_length_bound:
  assumes "distinct xs" "\<forall>a \<in> set xs. a < (N::nat)"
  shows "length xs \<le> N"
proof -
  have "length xs = card (set xs)" using assms(1) by (simp add: distinct_card)
  also have "\<dots> \<le> card {..<N}" using assms(2) by (intro card_mono) auto
  finally show ?thesis by simp
qed

text \<open>
  C1: in a well-formed tree whose addresses fit a 64-bit pointer, let \<open>top\<close> be a node,
  with the shape \<open>u\<close> below it, and let \<open>n\<close> be \<open>top\<close> itself or one of its descendants (an
  address of \<open>u\<close>).  Then \<^verbatim>\<open>path_from_iterator(n, top)\<close> returns a path, and
  \<^verbatim>\<open>iterator_from_path\<close> of that path and \<open>top\<close> returns \<open>n\<close>.
\<close>

theorem path_round_trip:
  assumes wf: "wf_tree t s ts" and u: "u \<in> set (subtrees_forest ts)" and n: "n \<in> set (pre u)"
    and bound: "\<forall>a \<in> set (pre_forest ts). a < 2 ^ 64"
  shows "\<exists>p. path_from_iterator t s n (addr u) = Some p \<and>
              iterator_from_path s p (addr u) = Some (Inr n)"
proof -
  from wf have ch: "wf_chain s 0 (head t) (feet t) ts"
    and dist: "distinct (head t # feet t # pre_forest ts)"
    by (simp_all add: wf_tree_def)
  from subtrees_wf(2)[OF ch u] obtain par prv nxt where wu: "wf_node s par prv nxt u" by blast
  from subtrees_forest_pre[OF u] dist have sub: "set (pre u) \<subseteq> set (pre_forest ts)"
    and du: "distinct (pre u)" by simp_all
  from wu obtain nd where nd: "node_at s (addr u) = Some nd" "addr u \<noteq> 0"
    by (rule wf_node_view)
  from du have nt: "addr u \<notin> set (pre_forest (kids u))" by (simp add: pre_kids)
  from dist sub kids_in_pre[of u] have nh: "head t \<notin> set (pre_forest (kids u))" by auto
  from at_path_exists[OF n] obtain ps where ps: "at_path u ps n" "\<forall>i \<in> set ps. i < length (pre u)"
    by blast
  have "length (pre u) \<le> 2 ^ 64"
    using distinct_length_bound[OF du] sub bound by blast
  with ps(2) have small: "\<forall>i \<in> set ps. i < 2 ^ 64" by fastforce
  have "path_loop s (head t) (addr u) n [] = Some (rev (map of_nat ps) @ [0])"
    using encode_path[OF wu ps(1) nt nh] path_body_top[OF nd(1)] by simp
  then have enc: "path_from_iterator t s n (addr u) = Some (0 # map of_nat ps)"
    by (simp add: path_from_iterator_def)
  have dec: "iterator_from_path s (0 # map of_nat ps) (addr u) = Some (Inr n)"
    using decode_path[OF wu ps(1) small] nd(2) by (simp add: iterator_from_path_def)
  from enc dec show ?thesis by blast
qed

theorem path_round_trip_witness:
  "wf_tree ex_tree ex_store ex_shape \<and>
   RNode 4 [RNode 6 [], RNode 7 []] \<in> set (subtrees_forest ex_shape) \<and>
   7 \<in> set (pre (RNode 4 [RNode 6 [], RNode 7 []])) \<and>
   pre_forest ex_shape = [3, 4, 6, 7, 5] \<and>
   path_from_iterator ex_tree ex_store 7 4 = Some [0, 1] \<and>
   iterator_from_path ex_store [0, 1] 4 = Some (Inr 7)"
proof -
  have wf: "wf_tree ex_tree ex_store ex_shape" by code_simp
  have u: "RNode 4 [RNode 6 [], RNode 7 []] \<in> set (subtrees_forest ex_shape)" by code_simp
  have n: "7 \<in> set (pre (RNode 4 [RNode 6 [], RNode 7 []]))" by simp
  have b: "\<forall>a \<in> set (pre_forest ex_shape). a < 2 ^ 64" by (simp add: ex_shape_def)
  have e: "path_from_iterator ex_tree ex_store 7 4 = Some [0, 1]" by code_simp
  have l: "pre_forest ex_shape = [3, 4, 6, 7, 5]" by (simp add: ex_shape_def)
  from path_round_trip[OF wf u n b] e wf u n l show ?thesis by simp
qed

section \<open>Stores under update\<close>

lemma upd_Some: "node_at s p = Some nd \<Longrightarrow> upd p f s = Some (put p (f nd) s)"
  by (simp add: upd_def)

lemma node_at_put:
  "node_at (put p v s) q = (if q = p then (if p = 0 then None else Some v) else node_at s q)"
  by (simp add: put_def node_at_def)

lemma node_at_fresh_update [simp]: "node_at (s\<lparr>fresh := k\<rparr>) q = node_at s q"
  by (simp add: node_at_def)

lemma fresh_put [simp]: "fresh (put p v s) = fresh s"
  by (simp add: put_def)

lemma wf_frame:
  "(\<forall>a \<in> set (pre t). map_option links (node_at S a) = map_option links (node_at s a)) \<Longrightarrow>
     wf_node S par prv nxt t = wf_node s par prv nxt t"
  "(\<forall>a \<in> set (pre_forest ts). map_option links (node_at S a) = map_option links (node_at s a)) \<Longrightarrow>
     wf_chain S par prv e ts = wf_chain s par prv e ts"
proof (induction s par prv nxt t and s par prv e ts rule: wf_node_wf_chain.induct)
  case (1 s par prv nxt a cs)
  from "1.prems" have a: "map_option links (node_at S a) = map_option links (node_at s a)"
    and cs: "\<forall>a \<in> set (pre_forest cs). map_option links (node_at S a) = map_option links (node_at s a)"
    by (simp_all add: pre_forest_def)
  show ?case
  proof (cases "node_at s a")
    case None
    with a show ?thesis by simp
  next
    case (Some nd)
    with a obtain nd' where nd': "node_at S a = Some nd'" "links nd' = links nd" by auto
    from "1.IH"[OF Some cs] show ?thesis using Some nd' by (auto simp: links_def)
  qed
next
  case (2 s par prv e)
  then show ?case by simp
next
  case (3 s par prv e c cs)
  then show ?case by simp
qed

lemma first_addr_append [simp]: "first_addr e (xs @ ys) = first_addr (first_addr e ys) xs"
  by (cases xs) simp_all

lemma last_addr_append [simp]: "last_addr e (xs @ ys) = last_addr (last_addr e xs) ys"
  by (induction xs arbitrary: e) simp_all

lemma chain_append:
  "wf_chain s par prv e (xs @ ys) =
     (wf_chain s par prv (first_addr e ys) xs \<and> wf_chain s par (last_addr prv xs) e ys)"
  by (induction xs arbitrary: prv) auto


lemma last_addr_in: "ts \<noteq> [] \<Longrightarrow> last_addr x ts \<in> set (pre_forest ts)"
proof (induction ts arbitrary: x)
  case Nil
  then show ?case by simp
next
  case (Cons c cs)
  show ?case
  proof (cases cs)
    case Nil
    then show ?thesis by simp
  next
    case (Cons d ds)
    then show ?thesis using Cons.IH[of "addr c"] by simp
  qed
qed

lemma last_addr_indep: "ts \<noteq> [] \<Longrightarrow> last_addr x ts = last_addr y ts"
  by (cases ts) simp_all

lemma first_addr_indep: "ts \<noteq> [] \<Longrightarrow> first_addr x ts = first_addr y ts"
  by (cases ts) simp_all

lemma wf_node_relink:
  assumes t: "wf_node s par prv nxt t"
    and S: "node_at S (addr t) = Some nd'" "parent nd' = par'" "prev_sibling nd' = prv'"
      "next_sibling nd' = nxt'" "first_child nd' = first_addr 0 (kids t)"
      "last_child nd' = last_addr 0 (kids t)"
    and fr: "\<forall>a \<in> set (pre_forest (kids t)). map_option links (node_at S a) = map_option links (node_at s a)"
  shows "wf_node S par' prv' nxt' t"
proof -
  from t have "wf_chain s (addr t) 0 0 (kids t)" by (rule wf_node_view)
  then have "wf_chain S (addr t) 0 0 (kids t)" using wf_frame(2)[OF fr] by simp
  with S show ?thesis by (cases t) simp
qed

lemma chain_retarget:
  assumes S: "node_at s (last_addr x ts) = Some nd" "node_at S (last_addr x ts) = Some nd'"
      "links nd' = links (nd\<lparr>next_sibling := e'\<rparr>)"
    and fr: "\<forall>a \<in> set (pre_forest ts). a \<noteq> last_addr x ts \<longrightarrow>
        map_option links (node_at S a) = map_option links (node_at s a)"
  shows "wf_chain s par prv e ts \<Longrightarrow> ts \<noteq> [] \<Longrightarrow> distinct (pre_forest ts) \<Longrightarrow>
     wf_chain S par prv e' ts"
  using S fr
proof (induction ts arbitrary: prv x)
  case Nil
  then show ?case by simp
next
  case (Cons c cs)
  from Cons.prems(1) have wc: "wf_node s par prv (first_addr e cs) c" and wcs: "wf_chain s par (addr c) e cs"
    by simp_all
  show ?case
  proof (cases cs)
    case Nil
    with Cons.prems have nd: "node_at s (addr c) = Some nd" "node_at S (addr c) = Some nd'"
      "links nd' = links (nd\<lparr>next_sibling := e'\<rparr>)" by simp_all
    from wc nd(1) have l: "parent nd = par" "prev_sibling nd = prv"
      "first_child nd = first_addr 0 (kids c)" "last_child nd = last_addr 0 (kids c)"
      by (auto elim!: wf_node_view)
    from Cons.prems(3) have "addr c \<notin> set (pre_forest (kids c))" by (simp add: pre_kids)
    with Cons.prems(7) Nil kids_in_pre[of c]
    have fr': "\<forall>a \<in> set (pre_forest (kids c)). map_option links (node_at S a) = map_option links (node_at s a)"
      by auto
    have "wf_node S par prv e' c"
      using wf_node_relink[OF wc nd(2) _ _ _ _ _ fr'] nd(3) l by (simp add: links_def)
    then show ?thesis using Nil by simp
  next
    case (Cons d ds)
    then have ne: "cs \<noteq> []" by simp
    have la: "last_addr x (c # cs) = last_addr (addr c) cs" by simp
    from last_addr_in[OF ne] have "last_addr (addr c) cs \<in> set (pre_forest cs)" .
    with Cons.prems(3) have "last_addr (addr c) cs \<notin> set (pre c)" by auto
    have "\<forall>a \<in> set (pre c). map_option links (node_at S a) = map_option links (node_at s a)"
    proof
      fix a assume a: "a \<in> set (pre c)"
      with \<open>last_addr (addr c) cs \<notin> set (pre c)\<close> have "a \<noteq> last_addr x (c # cs)"
        using la by auto
      moreover from a have "a \<in> set (pre_forest (c # cs))" by simp
      ultimately show "map_option links (node_at S a) = map_option links (node_at s a)"
        using Cons.prems(7) by blast
    qed
    from wf_frame(1)[OF this] wc have 1: "wf_node S par prv (first_addr e cs) c" by simp
    have 2: "wf_chain S par (addr c) e' cs"
      using Cons.IH[OF wcs ne, of "addr c"] Cons.prems(3-7) la by auto
    from 1 2 show ?thesis using first_addr_indep[OF ne, of e e'] by simp
  qed
qed

lemma count_up_null: "count_up 0 pe s = Some (pe, s)"
  by (subst count_up.simps) simp

section \<open>Inserting at the null position\<close>

lemma store_ok_fresh:
  assumes "store_ok s" "node_at s a = Some nd"
  shows "a \<noteq> fresh s" "fresh s \<noteq> 0"
  using assms by (auto simp: store_ok_def node_at_def split: if_splits)

lemma wf_chain_alloc:
  "wf_node s par prv nxt t \<Longrightarrow> a \<in> set (pre t) \<Longrightarrow> \<exists>nd. node_at s a = Some nd"
  "wf_chain s par prv e ts \<Longrightarrow> a \<in> set (pre_forest ts) \<Longrightarrow> \<exists>nd. node_at s a = Some nd"
proof (induction s par prv nxt t and s par prv e ts rule: wf_node_wf_chain.induct)
  case (1 s par prv nxt b cs)
  from "1.prems"(1) obtain nd where nd: "node_at s b = Some nd" "wf_chain s b 0 0 cs"
    by (rule wf_node_view) auto
  show ?case
  proof (cases "a = b")
    case True
    with nd show ?thesis by simp
  next
    case False
    with "1.prems"(2) have "a \<in> set (pre_forest cs)" by (simp add: pre_forest_def)
    from "1.IH"[OF nd this] show ?thesis .
  qed
next
  case (2 s par prv e)
  then show ?case by simp
next
  case (3 s par prv e c cs)
  then show ?case by auto
qed

lemma insert_before_feet:
  assumes wf: "wf_tree t s ts" and ok: "store_ok s"
  shows "\<exists>S hn fn ln nd.
      insert_before t 0 x s = Some (Inr (fresh s, S)) \<and>
      node_at s (head t) = Some hn \<and> node_at s (feet t) = Some fn \<and>
      node_at s (last_addr (head t) ts) = Some ln \<and>
      node_at S (fresh s) = Some nd \<and> links nd = (0, 0, 0, last_addr (head t) ts, feet t) \<and>
      data nd = x \<and>
      map_option links (node_at S (feet t)) = Some (links (fn\<lparr>prev_sibling := fresh s\<rparr>)) \<and>
      map_option links (node_at S (last_addr (head t) ts))
         = Some (links (ln\<lparr>next_sibling := fresh s\<rparr>)) \<and>
      (\<forall>a. a \<noteq> fresh s \<and> a \<noteq> feet t \<and> a \<noteq> last_addr (head t) ts \<longrightarrow>
         map_option links (node_at S a) = map_option links (node_at s a))"
proof -
  from wf obtain hn fn where s: "node_at s (head t) = Some hn" "node_at s (feet t) = Some fn"
    "prev_sibling fn = last_addr (head t) ts" "parent fn = 0"
    "head t \<noteq> 0" "feet t \<noteq> 0" "head t \<noteq> feet t"
    by (rule wf_tree_sentinels)
  from wf have ch: "wf_chain s 0 (head t) (feet t) ts"
    and dist: "distinct (head t # feet t # pre_forest ts)"
    by (simp_all add: wf_tree_def)
  let ?l = "last_addr (head t) ts"
  have l: "\<exists>ln. node_at s ?l = Some ln" "?l \<noteq> 0" "?l \<noteq> feet t"
  proof -
    show "\<exists>ln. node_at s ?l = Some ln"
    proof (cases ts)
      case Nil
      then show ?thesis using s by simp
    next
      case (Cons c cs)
      then show ?thesis using wf_chain_last[OF ch, of "head t"] by auto
    qed
    then show "?l \<noteq> 0" by (auto simp: node_at_def split: if_splits)
    show "?l \<noteq> feet t"
    proof (cases ts)
      case Nil
      then show ?thesis using s by simp
    next
      case (Cons c cs)
      then have "?l \<in> set (pre_forest ts)" using last_addr_in[of ts "head t"] by simp
      with dist show ?thesis by auto
    qed
  qed
  then obtain ln where ln: "node_at s ?l = Some ln" by blast
  from store_ok_fresh[OF ok s(1)] store_ok_fresh[OF ok s(2)] store_ok_fresh[OF ok ln]
  have f: "fresh s \<noteq> 0" "head t \<noteq> fresh s" "feet t \<noteq> fresh s" "?l \<noteq> fresh s" by simp_all
  show ?thesis
  proof (cases "?l = head t")
    case True
    then show ?thesis using s ln l(2,3) f
      by (simp add: insert_before_def new_node_def tree_node_new_def Let_def upd_Some node_at_put
        count_up_null count_head_def links_def)
  next
    case False
    then show ?thesis using s ln l(2,3) f
      by (simp add: insert_before_def new_node_def tree_node_new_def Let_def upd_Some node_at_put
        count_up_null count_head_def links_def)
  qed
qed


lemma pre_forest_append [simp]: "pre_forest (xs @ ys) = pre_forest xs @ pre_forest ys"
  by (simp add: pre_forest_def)

text \<open>
  C10: \<^verbatim>\<open>insert(position, x)\<close> with a null iterator on a well-formed tree does not abort.
  The null position is taken as \<^verbatim>\<open>feet\<close>: the call returns the freshly allocated node, which
  holds \<open>x\<close>, is a valid iterator target, and is the last root of the tree, which is well
  formed again.
\<close>

theorem insert_null_position:
  assumes wf: "wf_tree t s ts" and ok: "store_ok s"
  shows "\<exists>s'. insert_before t 0 x s = Some (Inr (fresh s, s')) \<and>
     wf_tree t s' (ts @ [RNode (fresh s) []]) \<and>
     map_option data (node_at s' (fresh s)) = Some x \<and> is_valid t (fresh s)"
proof -
  let ?l = "last_addr (head t) ts" and ?tmp = "fresh s"
  from insert_before_feet[OF wf ok, of x] obtain S hn fn ln nd where
    run: "insert_before t 0 x s = Some (Inr (?tmp, S))"
    and old: "node_at s (head t) = Some hn" "node_at s (feet t) = Some fn" "node_at s ?l = Some ln"
    and new: "node_at S ?tmp = Some nd" "links nd = (0, 0, 0, ?l, feet t)" "data nd = x"
    and ft: "map_option links (node_at S (feet t)) = Some (links (fn\<lparr>prev_sibling := ?tmp\<rparr>))"
    and lt: "map_option links (node_at S ?l) = Some (links (ln\<lparr>next_sibling := ?tmp\<rparr>))"
    and fr: "\<forall>a. a \<noteq> ?tmp \<and> a \<noteq> feet t \<and> a \<noteq> ?l \<longrightarrow>
         map_option links (node_at S a) = map_option links (node_at s a)"
    by blast
  from wf obtain hn' fn' where sent: "node_at s (head t) = Some hn'" "node_at s (feet t) = Some fn'"
    "next_sibling hn' = first_addr (feet t) ts"
    "parent fn' = 0" "next_sibling fn' = 0" "first_child fn' = 0" "last_child fn' = 0"
    "parent hn' = 0" "prev_sibling hn' = 0" "first_child hn' = 0" "last_child hn' = 0"
    "head t \<noteq> 0" "feet t \<noteq> 0" "head t \<noteq> feet t"
    by (rule wf_tree_sentinels)
  with old have [simp]: "hn' = hn" "fn' = fn" by simp_all
  from wf have ch: "wf_chain s 0 (head t) (feet t) ts"
    and dist: "distinct (head t # feet t # pre_forest ts)"
    by (simp_all add: wf_tree_def)
  from store_ok_fresh[OF ok old(1)] store_ok_fresh[OF ok old(2)]
  have f: "?tmp \<noteq> 0" "head t \<noteq> ?tmp" "feet t \<noteq> ?tmp" by simp_all
  have fresh_out: "?tmp \<notin> set (pre_forest ts)"
  proof
    assume "?tmp \<in> set (pre_forest ts)"
    from wf_chain_alloc(2)[OF ch this] obtain n where "node_at s ?tmp = Some n" by blast
    from store_ok_fresh(1)[OF ok this] show False by simp
  qed
  have chain: "wf_chain S 0 (head t) ?tmp ts"
  proof (cases "ts = []")
    case True
    then show ?thesis by simp
  next
    case False
    from lt obtain ln' where ln': "node_at S ?l = Some ln'" "links ln' = links (ln\<lparr>next_sibling := ?tmp\<rparr>)"
      by auto
    have "\<forall>a \<in> set (pre_forest ts). a \<noteq> ?l \<longrightarrow>
        map_option links (node_at S a) = map_option links (node_at s a)"
    proof (intro ballI impI)
      fix a assume "a \<in> set (pre_forest ts)" "a \<noteq> ?l"
      with fresh_out dist have "a \<noteq> ?tmp \<and> a \<noteq> feet t \<and> a \<noteq> ?l" by auto
      then show "map_option links (node_at S a) = map_option links (node_at s a)"
        by (rule fr[rule_format])
    qed
    from chain_retarget[OF old(3) ln' this ch False] dist show ?thesis by simp
  qed
  have newnode: "wf_chain S 0 ?l (feet t) [RNode ?tmp []]"
    using new by (simp add: links_def)
  have headS: "\<exists>h. node_at S (head t) = Some h \<and> parent h = 0 \<and> prev_sibling h = 0 \<and>
      first_child h = 0 \<and> last_child h = 0 \<and>
      next_sibling h = first_addr (feet t) (ts @ [RNode ?tmp []])"
  proof (cases "ts = []")
    case True
    with lt old sent show ?thesis by (auto simp: links_def)
  next
    case False
    then have "?l \<in> set (pre_forest ts)" by (rule last_addr_in)
    with dist have "head t \<noteq> ?l" by auto
    with fr f sent have "map_option links (node_at S (head t)) = Some (links hn)" by simp
    with sent False show ?thesis
      using first_addr_indep[OF False, of "feet t" ?tmp] by (auto simp: links_def)
  qed
  have feetS: "\<exists>f. node_at S (feet t) = Some f \<and> parent f = 0 \<and> next_sibling f = 0 \<and>
      first_child f = 0 \<and> last_child f = 0 \<and>
      prev_sibling f = last_addr (head t) (ts @ [RNode ?tmp []])"
    using ft sent by (auto simp: links_def)
  have "wf_tree t S (ts @ [RNode ?tmp []])"
    using headS feetS chain newnode dist f fresh_out
    by (auto simp: wf_tree_def chain_append)
  moreover have "is_valid t ?tmp" using f by (auto simp: is_valid_def)
  ultimately show ?thesis using run new by auto
qed


theorem insert_null_position_witness:
  "wf_tree ex_tree ex_store ex_shape \<and> store_ok ex_store \<and> fresh ex_store = 8 \<and>
   (\<exists>s'. insert_before ex_tree 0 9 ex_store = Some (Inr (8, s')) \<and>
      wf_tree ex_tree s' (ex_shape @ [RNode 8 []]))"
proof -
  have wf: "wf_tree ex_tree ex_store ex_shape" by code_simp
  have ok: "store_ok ex_store" by code_simp
  have fr: "fresh ex_store = 8" by code_simp
  from insert_null_position[OF wf ok, of 9] wf ok fr show ?thesis by auto
qed

section \<open>Filtering\<close>

lemma same_shape_refl [simp]: "same_shape s s"
  by (simp add: same_shape_def)

lemma same_shape_trans: "same_shape s s' \<Longrightarrow> same_shape s' s'' \<Longrightarrow> same_shape s s''"
  by (simp add: same_shape_def)

lemma same_shape_node:
  assumes "same_shape s s'" "node_at s a = Some nd"
  obtains nd' where "node_at s' a = Some nd'" "links nd' = links nd" "data nd' = data nd"
proof -
  from assms(1) have "map_option (\<lambda>n. (links n, data n)) (node_at s' a)
      = map_option (\<lambda>n. (links n, data n)) (node_at s a)" by (simp add: same_shape_def)
  with assms(2) that show thesis by (cases "node_at s' a") auto
qed

lemma same_shape_links:
  "same_shape s s' \<Longrightarrow> map_option links (node_at s' a) = map_option links (node_at s a)"
proof -
  assume "same_shape s s'"
  then have "map_option (\<lambda>n. (links n, data n)) (node_at s' a)
      = map_option (\<lambda>n. (links n, data n)) (node_at s a)" by (simp add: same_shape_def)
  then show ?thesis by (cases "node_at s' a"; cases "node_at s a") auto
qed

lemma same_shape_dat: "same_shape s s' \<Longrightarrow> dat s' a = dat s a"
proof -
  assume "same_shape s s'"
  then have "map_option (\<lambda>n. (links n, data n)) (node_at s' a)
      = map_option (\<lambda>n. (links n, data n)) (node_at s a)" by (simp add: same_shape_def)
  then show ?thesis by (cases "node_at s' a"; cases "node_at s a") (auto simp: dat_def)
qed

lemma node_at_nonzero: "node_at s p = Some nd \<Longrightarrow> p \<noteq> 0"
  by (auto simp: node_at_def split: if_splits)

lemma same_shape_put:
  assumes "node_at s p = Some nd" "links v = links nd" "data v = data nd"
  shows "same_shape s (put p v s)"
  using assms node_at_nonzero[OF assms(1)] by (auto simp: same_shape_def node_at_put)

lemma vis_put: "p \<noteq> 0 \<Longrightarrow> vis (put p v s) a = (if a = p then visible v else vis s a)"
  by (simp add: vis_def node_at_put)

lemma wf_tree_same:
  assumes "same_shape s s'" "wf_tree t s ts"
  shows "wf_tree t s' ts"
proof -
  have l: "map_option links (node_at s' a) = map_option links (node_at s a)" for a
    using assms(1) by (rule same_shape_links)
  from assms(2) obtain hn fn where n: "node_at s (head t) = Some hn" "node_at s (feet t) = Some fn"
    by (rule wf_tree_sentinels)
  from same_shape_node[OF assms(1) n(1)] obtain hn' where h: "node_at s' (head t) = Some hn'"
    "links hn' = links hn" by blast
  from same_shape_node[OF assms(1) n(2)] obtain fn' where f: "node_at s' (feet t) = Some fn'"
    "links fn' = links fn" by blast
  have "wf_chain s' 0 (head t) (feet t) ts = wf_chain s 0 (head t) (feet t) ts"
    by (rule wf_frame(2)) (simp add: l)
  with assms(2) n h f show ?thesis by (auto simp: wf_tree_def links_def)
qed

lemma pchain_same: "same_shape s s' \<Longrightarrow> pchain s p ps \<Longrightarrow> pchain s' p ps"
proof (induction ps arbitrary: p)
  case Nil
  then show ?case by simp
next
  case (Cons a as)
  from Cons.prems(2) obtain nd where nd: "p = a" "node_at s a = Some nd" "pchain s (parent nd) as"
    by (auto split: option.splits)
  from same_shape_node[OF Cons.prems(1) nd(2)] obtain nd' where nd': "node_at s' a = Some nd'"
    "links nd' = links nd" by blast
  then have "parent nd' = parent nd" by (simp add: links_def)
  with Cons.IH[OF Cons.prems(1) nd(3)] nd nd' show ?case by simp
qed

lemma pchain_nonzero: "pchain s p (a # as) \<Longrightarrow> a \<noteq> 0"
  by (auto split: option.splits dest: node_at_nonzero)

lemma filter_up1_pchain:
  "pchain s p ps \<Longrightarrow> \<exists>s'. filter_up1 p s = Some s' \<and> same_shape s s' \<and> (\<forall>a. vis s' a = vis s a)"
proof (induction ps arbitrary: p s)
  case Nil
  then show ?case by (subst filter_up1.simps) simp
next
  case (Cons a as)
  from Cons.prems obtain nd where nd: "p = a" "node_at s a = Some nd" "pchain s (parent nd) as" "a \<noteq> 0"
    by (auto split: option.splits dest: node_at_nonzero)
  let ?v = "nd\<lparr>count_expandable := count_expandable nd + 1,
                count_expanded := count_expanded nd + 1\<rparr>"
  let ?s1 = "put a ?v (put a (nd\<lparr>count_expandable := count_expandable nd + 1\<rparr>) s)"
  have ss: "same_shape s ?s1"
    using nd by (auto simp: same_shape_def node_at_put links_def)
  have vv: "vis ?s1 b = vis s b" for b
    using nd by (simp add: vis_def node_at_put)
  from pchain_same[OF ss nd(3)] have "pchain ?s1 (parent nd) as" .
  from Cons.IH[OF this] obtain s' where s': "filter_up1 (parent nd) ?s1 = Some s'"
    "same_shape ?s1 s'" "\<forall>b. vis s' b = vis ?s1 b" by blast
  have "filter_up1 p s = Some s'"
    using nd s'(1) by (subst filter_up1.simps) (simp add: upd_Some node_at_put)
  with same_shape_trans[OF ss s'(2)] s'(3) vv show ?case by auto
qed

lemma filter_up_pchain:
  assumes hd: "node_at s (head t) = Some hn"
  shows "pchain s p ps \<Longrightarrow> \<exists>s'. filter_up t p s = Some s' \<and> same_shape s s' \<and>
     (\<forall>a. vis s' a = (vis s a \<or> a \<in> set ps))"
  using hd
proof (induction ps arbitrary: p s hn)
  case Nil
  then show ?case by (subst filter_up.simps) simp
next
  case (Cons a as)
  from Cons.prems(1) obtain nd where nd: "p = a" "node_at s a = Some nd" "pchain s (parent nd) as"
      "a \<noteq> 0"
    by (auto split: option.splits dest: node_at_nonzero)
  note hn = Cons.prems(2)
  have h0: "head t \<noteq> 0" using hn by (rule node_at_nonzero)
  text \<open>the branch that makes the ancestor visible\<close>
  have "\<exists>s1. (if \<not> visible nd
              then do {
                s \<leftarrow> upd a (\<lambda>n. n\<lparr>visible := True\<rparr>) s;
                s \<leftarrow> upd (head t) (\<lambda>n. n\<lparr>count_expandable := count_expandable n + 1\<rparr>) s;
                s \<leftarrow> upd (head t) (\<lambda>n. n\<lparr>count_expanded := count_expanded n + 1\<rparr>) s;
                pn \<leftarrow> node_at s a;
                filter_up1 (parent pn) s
              }
              else Some s) = Some s1 \<and> same_shape s s1 \<and>
            (\<forall>b. vis s1 b = (vis s b \<or> b = a))"
  proof (cases "visible nd")
    case True
    then have "vis s a" using nd by (simp add: vis_def)
    then show ?thesis using True by auto
  next
    case False
    let ?sa = "put a (nd\<lparr>visible := True\<rparr>) s"
    have ssa: "same_shape s ?sa" by (rule same_shape_put[OF nd(2)]) (simp_all add: links_def)
    from same_shape_node[OF ssa hn] obtain h1 where h1: "node_at ?sa (head t) = Some h1" by blast
    let ?sb = "put (head t) (h1\<lparr>count_expandable := count_expandable h1 + 1\<rparr>) ?sa"
    have ssb: "same_shape ?sa ?sb" by (rule same_shape_put[OF h1]) (simp_all add: links_def)
    have h2: "node_at ?sb (head t) = Some (h1\<lparr>count_expandable := count_expandable h1 + 1\<rparr>)"
      using h0 by (simp add: node_at_put)
    let ?h2 = "h1\<lparr>count_expandable := count_expandable h1 + 1\<rparr>"
    let ?sc = "put (head t) (?h2\<lparr>count_expanded := count_expanded ?h2 + 1\<rparr>) ?sb"
    have ssc: "same_shape ?sb ?sc" by (rule same_shape_put[OF h2]) (simp_all add: links_def)
    have sall: "same_shape s ?sc"
      using same_shape_trans[OF ssa same_shape_trans[OF ssb ssc]] .
    from same_shape_node[OF sall nd(2)] obtain pn where pn: "node_at ?sc a = Some pn"
      "links pn = links nd" by blast
    then have pp: "parent pn = parent nd" by (simp add: links_def)
    from pchain_same[OF sall nd(3)] have "pchain ?sc (parent pn) as" using pp by simp
    from filter_up1_pchain[OF this] obtain s1 where s1: "filter_up1 (parent pn) ?sc = Some s1"
      "same_shape ?sc s1" "\<forall>b. vis s1 b = vis ?sc b" by blast
    have visc: "vis ?sc b = (vis s b \<or> b = a)" for b
    proof (cases "b = head t")
      case True
      have "visible h1 = (vis s (head t) \<or> head t = a)"
        using h1 nd hn by (auto simp: node_at_put vis_def split: if_splits)
      then show ?thesis using True h0 nd(4) by (auto simp: vis_put)
    next
      case False
      then show ?thesis using h0 nd(4) by (auto simp: vis_put)
    qed
    have "(do {
                s \<leftarrow> upd a (\<lambda>n. n\<lparr>visible := True\<rparr>) s;
                s \<leftarrow> upd (head t) (\<lambda>n. n\<lparr>count_expandable := count_expandable n + 1\<rparr>) s;
                s \<leftarrow> upd (head t) (\<lambda>n. n\<lparr>count_expanded := count_expanded n + 1\<rparr>) s;
                pn \<leftarrow> node_at s a;
                filter_up1 (parent pn) s
              }) = Some s1"
      using nd(2) h1 h2 pn(1) s1(1) by (simp add: upd_Some)
    with False same_shape_trans[OF sall s1(2)] s1(3) visc show ?thesis by auto
  qed
  then obtain s1 where s1: "(if \<not> visible nd
              then do {
                s \<leftarrow> upd a (\<lambda>n. n\<lparr>visible := True\<rparr>) s;
                s \<leftarrow> upd (head t) (\<lambda>n. n\<lparr>count_expandable := count_expandable n + 1\<rparr>) s;
                s \<leftarrow> upd (head t) (\<lambda>n. n\<lparr>count_expanded := count_expanded n + 1\<rparr>) s;
                pn \<leftarrow> node_at s a;
                filter_up1 (parent pn) s
              }
              else Some s) = Some s1" "same_shape s s1" "\<forall>b. vis s1 b = (vis s b \<or> b = a)"
    by blast
  from same_shape_node[OF s1(2) nd(2)] obtain n1 where n1: "node_at s1 a = Some n1"
    "links n1 = links nd" by blast
  let ?n2 = "n1\<lparr>count_expandable := count_expandable n1 + 1\<rparr>"
  let ?s2 = "put a ?n2 s1"
  let ?s3 = "put a (?n2\<lparr>count_expanded := count_expanded ?n2 + 1\<rparr>) ?s2"
  have ss2: "same_shape s1 ?s2" by (rule same_shape_put[OF n1(1)]) (simp_all add: links_def)
  have n2: "node_at ?s2 a = Some ?n2" using nd(4) by (simp add: node_at_put)
  have ss3: "same_shape ?s2 ?s3" by (rule same_shape_put[OF n2]) (simp_all add: links_def)
  have n3: "node_at ?s3 a = Some (?n2\<lparr>count_expanded := count_expanded ?n2 + 1\<rparr>)"
    using nd(4) by (simp add: node_at_put)
  have sall: "same_shape s ?s3"
    using same_shape_trans[OF s1(2) same_shape_trans[OF ss2 ss3]] .
  have v3: "vis ?s3 b = vis s1 b" for b
    using nd(4) n1 by (simp add: vis_def node_at_put)
  have par3: "parent (?n2\<lparr>count_expanded := count_expanded ?n2 + 1\<rparr>) = parent nd"
    using n1(2) by (simp add: links_def)
  from pchain_same[OF sall nd(3)] have pc: "pchain ?s3 (parent nd) as" .
  from same_shape_node[OF sall hn] obtain h3 where h3: "node_at ?s3 (head t) = Some h3" by blast
  from Cons.IH[OF pc h3] obtain s' where s': "filter_up t (parent nd) ?s3 = Some s'"
    "same_shape ?s3 s'" "\<forall>b. vis s' b = (vis ?s3 b \<or> b \<in> set as)" by blast
  define blk where "blk = (if \<not> visible nd
              then do {
                s \<leftarrow> upd a (\<lambda>n. n\<lparr>visible := True\<rparr>) s;
                s \<leftarrow> upd (head t) (\<lambda>n. n\<lparr>count_expandable := count_expandable n + 1\<rparr>) s;
                s \<leftarrow> upd (head t) (\<lambda>n. n\<lparr>count_expanded := count_expanded n + 1\<rparr>) s;
                pn \<leftarrow> node_at s a;
                filter_up1 (parent pn) s
              }
              else Some s)"
  have unf: "filter_up t p s = blk \<bind> (\<lambda>s. do {
        s \<leftarrow> upd a (\<lambda>n. n\<lparr>count_expandable := count_expandable n + 1\<rparr>) s;
        s \<leftarrow> upd a (\<lambda>n. n\<lparr>count_expanded := count_expanded n + 1\<rparr>) s;
        nd \<leftarrow> node_at s a;
        filter_up t (parent nd) s })"
    unfolding blk_def using nd(1,2,4) by (subst filter_up.simps) simp
  have b1: "blk = Some s1" using s1(1) by (simp add: blk_def)
  have "filter_up t p s = Some s'"
    unfolding unf b1 using n1(1) n2 n3 par3 s'(1) by (simp add: upd_Some)
  moreover have "same_shape s s'" using same_shape_trans[OF sall s'(2)] .
  moreover have "\<forall>b. vis s' b = (vis s b \<or> b \<in> set (a # as))"
    using s'(3) v3 s1(3) by auto
  ultimately show ?case by blast
qed

lemma ancs_forest_simps [simp]:
  "ancs_forest [] x = []" "ancs_forest (c # cs) x = ancs c x @ ancs_forest cs x"
  by (simp_all add: ancs_forest_def)

lemma ancs_kids:
  "ancs t x = (if x \<in> set (pre_forest (kids t)) then ancs_forest (kids t) x @ [addr t] else [])"
  by (cases t) (simp add: pre_forest_def ancs_forest_def)

lemma ancs_empty: "x \<notin> set (pre t) \<Longrightarrow> ancs t x = []"
  using kids_in_pre[of t] by (auto simp: ancs_kids)

lemma ancs_forest_empty: "x \<notin> set (pre_forest ts) \<Longrightarrow> ancs_forest ts x = []"
  by (induction ts) (auto simp: ancs_empty)

lemma ancs_subset: "set (ancs t x) \<subseteq> set (pre t)"
proof (induction t)
  case (RNode a cs)
  have sub: "set (ancs_forest cs x) \<subseteq> set (pre_forest cs)"
    unfolding ancs_forest_def pre_forest_def
  proof
    fix y assume "y \<in> set (concat (map (\<lambda>c. ancs c x) cs))"
    then obtain c where c: "c \<in> set cs" "y \<in> set (ancs c x)" by auto
    from RNode.IH[OF c(1)] c(2) have "y \<in> set (pre c)" by auto
    with c(1) show "y \<in> set (concat (map pre cs))" by auto
  qed
  show ?case
  proof (cases "x \<in> set (pre_forest cs)")
    case True
    then have "ancs (RNode a cs) x = ancs_forest cs x @ [a]" by (simp only: ancs_kids rtree.sel if_True)
    with sub show ?thesis by (auto simp only: pre_kids rtree.sel set_append list.set)
  next
    case False
    then have "ancs (RNode a cs) x = []" by (simp only: ancs_kids rtree.sel if_False)
    then show ?thesis by (simp only: list.set empty_subsetI)
  qed
qed

lemma ancs_forest_subset: "set (ancs_forest ts x) \<subseteq> set (pre_forest ts)"
  using ancs_subset by (induction ts) auto

lemma pchain_wf:
  "wf_node s par prv nxt t \<Longrightarrow> distinct (pre t) \<Longrightarrow> x \<in> set (pre t) \<Longrightarrow> pchain s par ps0 \<Longrightarrow>
     \<exists>nd. node_at s x = Some nd \<and> pchain s (parent nd) (ancs t x @ ps0)"
  "wf_chain s par prv e ts \<Longrightarrow> distinct (pre_forest ts) \<Longrightarrow> x \<in> set (pre_forest ts) \<Longrightarrow>
     pchain s par ps0 \<Longrightarrow>
     \<exists>nd. node_at s x = Some nd \<and> pchain s (parent nd) (ancs_forest ts x @ ps0)"
proof (induction s par prv nxt t and s par prv e ts arbitrary: ps0 and ps0
    rule: wf_node_wf_chain.induct)
  case (1 s par prv nxt a cs)
  from "1.prems"(1) obtain nd where nd: "node_at s a = Some nd" "wf_chain s a 0 0 cs" "parent nd = par"
    by (rule wf_node_view) auto
  from "1.prems"(2) have d: "a \<notin> set (pre_forest cs)" "distinct (pre_forest cs)"
    by (simp_all add: pre_forest_def)
  show ?case
  proof (cases "x = a")
    case True
    with d(1) have "ancs (RNode a cs) x = []" by (simp add: ancs_kids)
    with True nd "1.prems"(4) show ?thesis by simp
  next
    case False
    with "1.prems"(3) have x: "x \<in> set (pre_forest cs)" by (simp add: pre_forest_def)
    have "pchain s a (a # ps0)" using nd "1.prems"(4) by simp
    from "1.IH"[OF nd(1,2) d(2) x this] x show ?thesis by (simp add: ancs_kids)
  qed
next
  case (2 s par prv e)
  then show ?case by simp
next
  case (3 s par prv e c cs)
  from "3.prems"(1) have wc: "wf_node s par prv (first_addr e cs) c" and wcs: "wf_chain s par (addr c) e cs"
    by simp_all
  from "3.prems"(2) have d: "distinct (pre c)" "distinct (pre_forest cs)"
    "set (pre c) \<inter> set (pre_forest cs) = {}" by simp_all
  show ?case
  proof (cases "x \<in> set (pre c)")
    case True
    with d(3) have "x \<notin> set (pre_forest cs)" by auto
    then have "ancs_forest cs x = []" by (rule ancs_forest_empty)
    with "3.IH"(1)[OF wc d(1) True "3.prems"(4)] show ?thesis by simp
  next
    case False
    with "3.prems"(3) have x: "x \<in> set (pre_forest cs)" by simp
    from False have "ancs c x = []" by (rule ancs_empty)
    with "3.IH"(2)[OF wcs d(2) x "3.prems"(4)] show ?thesis by simp
  qed
qed

lemma subtrees_self [simp]: "t \<in> set (subtrees t)"
  by (cases t) simp

lemma subtrees_kids: "set (subtrees t) = insert t (set (subtrees_forest (kids t)))"
  by (cases t) (simp add: subtrees_forest_def)

lemma subtrees_forest_simps [simp]:
  "subtrees_forest [] = []" "subtrees_forest (c # cs) = subtrees c @ subtrees_forest cs"
  by (simp_all add: subtrees_forest_def)

lemma ancs_member_aux:
  assumes "\<And>c u. c \<in> set ts \<Longrightarrow> distinct (pre c) \<Longrightarrow> u \<in> set (subtrees c) \<Longrightarrow>
     (addr u \<in> set (ancs c x) \<longleftrightarrow> x \<in> set (pre_forest (kids u)))"
  shows "distinct (pre_forest ts) \<Longrightarrow> u \<in> set (subtrees_forest ts) \<Longrightarrow>
     (addr u \<in> set (ancs_forest ts x) \<longleftrightarrow> x \<in> set (pre_forest (kids u)))"
  using assms
proof (induction ts)
  case Nil
  then show ?case by simp
next
  case (Cons c cs)
  from Cons.prems(1) have d: "distinct (pre c)" "distinct (pre_forest cs)"
    "set (pre c) \<inter> set (pre_forest cs) = {}" by simp_all
  from Cons.prems(2) consider "u \<in> set (subtrees c)" | "u \<in> set (subtrees_forest cs)" by auto
  then show ?case
  proof cases
    case 1
    from subtrees_pre[OF 1] have "addr u \<in> set (pre c)" by auto
    with d(3) ancs_forest_subset[of cs x] have "addr u \<notin> set (ancs_forest cs x)" by auto
    then show ?thesis using Cons.prems(3)[OF _ d(1) 1] by simp
  next
    case 2
    from subtrees_forest_pre(1)[OF 2] have "addr u \<in> set (pre_forest cs)" by auto
    with d(3) ancs_subset[of c x] have "addr u \<notin> set (ancs c x)" by auto
    moreover have "addr u \<in> set (ancs_forest cs x) \<longleftrightarrow> x \<in> set (pre_forest (kids u))"
      using Cons.IH[OF d(2) 2] Cons.prems(3) by simp
    ultimately show ?thesis by simp
  qed
qed

lemma ancs_in: "x \<in> set (pre_forest cs) \<Longrightarrow> ancs (RNode a cs) x = ancs_forest cs x @ [a]"
  by (simp only: ancs_kids rtree.sel if_True)

lemma ancs_out: "x \<notin> set (pre_forest cs) \<Longrightarrow> ancs (RNode a cs) x = []"
  by (simp only: ancs_kids rtree.sel if_False)

lemma ancs_member:
  "distinct (pre t) \<Longrightarrow> u \<in> set (subtrees t) \<Longrightarrow>
     (addr u \<in> set (ancs t x) \<longleftrightarrow> x \<in> set (pre_forest (kids u)))"
proof (induction t arbitrary: u)
  case (RNode a cs)
  from RNode.prems(1) have d: "a \<notin> set (pre_forest cs)" "distinct (pre_forest cs)"
    by (simp_all add: pre_kids[of "RNode a cs"] del: pre.simps)
  show ?case
  proof (cases "u = RNode a cs")
    case True
    show ?thesis
    proof (cases "x \<in> set (pre_forest cs)")
      case a: True
      then show ?thesis using True by (simp add: ancs_in del: ancs.simps pre.simps)
    next
      case b: False
      then show ?thesis using True by (simp add: ancs_out del: ancs.simps pre.simps)
    qed
  next
    case False
    with RNode.prems(2) have u: "u \<in> set (subtrees_forest cs)" by (simp add: subtrees_forest_def)
    from subtrees_forest_pre(1)[OF u] have sub: "set (pre u) \<subseteq> set (pre_forest cs)" .
    then have au: "addr u \<in> set (pre_forest cs)" by auto
    with d(1) have ne: "addr u \<noteq> a" by auto
    have aux: "addr u \<in> set (ancs_forest cs x) \<longleftrightarrow> x \<in> set (pre_forest (kids u))"
    proof (rule ancs_member_aux[OF _ d(2) u])
      fix c v assume "c \<in> set cs" "distinct (pre c)" "v \<in> set (subtrees c)"
      then show "addr v \<in> set (ancs c x) \<longleftrightarrow> x \<in> set (pre_forest (kids v))"
        by (rule RNode.IH)
    qed
    show ?thesis
    proof (cases "x \<in> set (pre_forest cs)")
      case True
      then show ?thesis using aux ne by (simp add: ancs_in del: ancs.simps pre.simps)
    next
      case False
      with sub kids_in_pre[of u] have "x \<notin> set (pre_forest (kids u))" by auto
      with False show ?thesis by (simp add: ancs_out del: ancs.simps pre.simps)
    qed
  qed
qed

lemma ancs_forest_member:
  "distinct (pre_forest ts) \<Longrightarrow> u \<in> set (subtrees_forest ts) \<Longrightarrow>
     (addr u \<in> set (ancs_forest ts x) \<longleftrightarrow> x \<in> set (pre_forest (kids u)))"
  by (rule ancs_member_aux[OF ancs_member])

text \<open>The addresses of a node of a shape form a block of the pre-order of the shape.\<close>

lemma subtrees_block: "u \<in> set (subtrees t) \<Longrightarrow> \<exists>ys zs. pre t = ys @ pre u @ zs"
proof (induction t)
  case (RNode a cs)
  show ?case
  proof (cases "u = RNode a cs")
    case True
    then have "pre (RNode a cs) = [] @ pre u @ []" by simp
    then show ?thesis by blast
  next
    case False
    with RNode.prems obtain c where c: "c \<in> set cs" "u \<in> set (subtrees c)" by auto
    from RNode.IH[OF c] obtain ys zs where yz: "pre c = ys @ pre u @ zs" by blast
    from c(1) obtain as bs where "cs = as @ c # bs" by (auto simp: in_set_conv_decomp)
    then have "pre (RNode a cs) = (a # concat (map pre as) @ ys) @ pre u @ (zs @ concat (map pre bs))"
      using yz by simp
    then show ?thesis by blast
  qed
qed

lemma subtrees_forest_block:
  assumes "u \<in> set (subtrees_forest ts)"
  shows "\<exists>ys zs. pre_forest ts = ys @ pre u @ zs"
proof -
  from assms obtain c where c: "c \<in> set ts" "u \<in> set (subtrees c)"
    by (auto simp: subtrees_forest_def)
  from subtrees_block[OF c(2)] obtain ys zs where yz: "pre c = ys @ pre u @ zs" by blast
  from c(1) obtain as bs where "ts = as @ c # bs" by (auto simp: in_set_conv_decomp)
  then have "pre_forest ts = (pre_forest as @ ys) @ pre u @ (zs @ pre_forest bs)"
    using yz by simp
  then show ?thesis by blast
qed

lemma split_unique:
  "a \<notin> set xs \<Longrightarrow> a \<notin> set ys \<Longrightarrow> xs @ a # r = ys @ a # r' \<Longrightarrow> xs = ys"
proof (induction xs arbitrary: ys)
  case Nil
  then show ?case by (cases ys) auto
next
  case (Cons x xs)
  then show ?case by (cases ys) auto
qed

text \<open>When the sweep stands at \<open>x\<close>, the nodes below \<open>x\<close> are still to come.\<close>

lemma block_prefix:
  assumes d: "distinct (pre_forest ts)" and u: "u \<in> set (subtrees_forest ts)"
    and l: "pre_forest ts = xs @ addr u # rest"
  shows "set (pre u) \<inter> set xs = {}"
proof -
  from subtrees_forest_block[OF u] obtain ys zs where yz: "pre_forest ts = ys @ pre u @ zs" by blast
  then have "pre_forest ts = ys @ addr u # (pre_forest (kids u) @ zs)" by (simp add: pre_kids)
  with l have eq: "xs @ addr u # rest = ys @ addr u # (pre_forest (kids u) @ zs)" by simp
  from d l have "addr u \<notin> set xs" by auto
  moreover from d yz have "addr u \<notin> set ys" by (auto simp: pre_kids)
  ultimately have "xs = ys" using eq by (rule split_unique)
  with d yz show ?thesis by auto
qed

text \<open>One turn of the sweep of \<^verbatim>\<open>filter\<close>, at a node \<open>x\<close> whose parent chain is \<open>ps\<close>.\<close>

lemma filter_body:
  assumes hn: "node_at s (head t) = Some hn" and nd: "node_at s x = Some nd"
    and pc: "pchain s (parent nd) ps" and xh: "x \<noteq> head t" and xf: "x \<noteq> feet t"
  shows "\<exists>s2. same_shape s s2 \<and>
     (\<forall>a. vis s2 a = (if a = x then keep (data nd) else (vis s a \<or> (keep (data nd) \<and> a \<in> set ps)))) \<and>
     filter_loop t keep \<lparr>node = x, skip_current_children = b\<rparr> s =
       (pre_inc s2 \<lparr>node = x, skip_current_children = b\<rparr> \<bind>
          (\<lambda>r. case r of Inl e \<Rightarrow> Some (Inl e) | Inr it' \<Rightarrow> filter_loop t keep it' s2))"
proof -
  have x0: "x \<noteq> 0" using nd by (rule node_at_nonzero)
  have h0: "head t \<noteq> 0" using hn by (rule node_at_nonzero)
  define sa where "sa = (if first_child nd \<noteq> 0
      then put x (nd\<lparr>expanded := True, count_expandable := 0, count_expanded := 0\<rparr>) s else s)"
  have e1: "(if first_child nd \<noteq> 0
      then upd x (\<lambda>n. n\<lparr>expanded := True, count_expandable := 0, count_expanded := 0\<rparr>) s
      else Some s) = Some sa"
    using nd by (simp add: sa_def upd_Some)
  have ssa: "same_shape s sa"
    unfolding sa_def using same_shape_put[OF nd, of "nd\<lparr>expanded := True, count_expandable := 0, count_expanded := 0\<rparr>"]
    by (simp add: links_def)
  from same_shape_node[OF ssa nd] obtain na where na: "node_at sa x = Some na"
    "links na = links nd" "data na = data nd" by blast
  have va: "vis sa a = vis s a" for a
    using nd x0 by (simp add: sa_def vis_def node_at_put)
  define sb where "sb = put x (na\<lparr>visible := keep (data na)\<rparr>) sa"
  have e2: "upd x (\<lambda>n. n\<lparr>visible := keep (data na)\<rparr>) sa = Some sb"
    using na(1) by (simp add: sb_def upd_Some)
  have ssb: "same_shape sa sb"
    unfolding sb_def by (rule same_shape_put[OF na(1)]) (simp_all add: links_def)
  have nb: "node_at sb x = Some (na\<lparr>visible := keep (data na)\<rparr>)"
    using x0 by (simp add: sb_def node_at_put)
  have vb: "vis sb a = (if a = x then keep (data nd) else vis s a)" for a
    using x0 na(3) va[of a] by (simp add: sb_def vis_def node_at_put)
  have ssab: "same_shape s sb" using same_shape_trans[OF ssa ssb] .
  have e3: "\<exists>s2. (if keep (data na)
       then do {
         s \<leftarrow> upd (head t) (\<lambda>n. n\<lparr>count_expandable := count_expandable n + 1\<rparr>) sb;
         s \<leftarrow> upd (head t) (\<lambda>n. n\<lparr>count_expanded := count_expanded n + 1\<rparr>) s;
         nd \<leftarrow> node_at s x;
         filter_up t (parent nd) s
       }
       else Some sb) = Some s2 \<and> same_shape sb s2 \<and>
      (\<forall>a. vis s2 a = (vis sb a \<or> (keep (data nd) \<and> a \<in> set ps)))"
  proof (cases "keep (data na)")
    case False
    then show ?thesis using na(3) by simp
  next
    case True
    from same_shape_node[OF ssab hn] obtain h1 where h1: "node_at sb (head t) = Some h1" by blast
    let ?h2 = "h1\<lparr>count_expandable := count_expandable h1 + 1\<rparr>"
    let ?sc = "put (head t) ?h2 sb"
    let ?sd = "put (head t) (?h2\<lparr>count_expanded := count_expanded ?h2 + 1\<rparr>) ?sc"
    have ssc: "same_shape sb ?sc" by (rule same_shape_put[OF h1]) (simp_all add: links_def)
    have h2: "node_at ?sc (head t) = Some ?h2" using h0 by (simp add: node_at_put)
    have ssd: "same_shape ?sc ?sd" by (rule same_shape_put[OF h2]) (simp_all add: links_def)
    have sall: "same_shape s ?sd"
      using same_shape_trans[OF ssab same_shape_trans[OF ssc ssd]] .
    have nx: "node_at ?sd x = Some (na\<lparr>visible := keep (data na)\<rparr>)"
      using nb xh by (simp add: node_at_put)
    have pp: "parent (na\<lparr>visible := keep (data na)\<rparr>) = parent nd"
      using na(2) by (simp add: links_def)
    from same_shape_node[OF sall hn] obtain h3 where h3: "node_at ?sd (head t) = Some h3" by blast
    from pchain_same[OF sall pc] have "pchain ?sd (parent nd) ps" .
    from filter_up_pchain[OF h3 this] obtain s2 where s2:
      "filter_up t (parent nd) ?sd = Some s2" "same_shape ?sd s2"
      "\<forall>a. vis s2 a = (vis ?sd a \<or> a \<in> set ps)" by blast
    have vd: "vis ?sd a = vis sb a" for a
      using h1 h0 by (simp add: vis_def node_at_put)
    have "(do {
         s \<leftarrow> upd (head t) (\<lambda>n. n\<lparr>count_expandable := count_expandable n + 1\<rparr>) sb;
         s \<leftarrow> upd (head t) (\<lambda>n. n\<lparr>count_expanded := count_expanded n + 1\<rparr>) s;
         nd \<leftarrow> node_at s x;
         filter_up t (parent nd) s
       }) = Some s2"
      using h1 h2 nx pp s2(1) by (simp add: upd_Some)
    moreover have "same_shape sb s2"
      using same_shape_trans[OF ssc same_shape_trans[OF ssd s2(2)]] .
    ultimately show ?thesis using True s2(3) vd na(3) by auto
  qed
  then obtain s2 where s2: "(if keep (data na)
       then do {
         s \<leftarrow> upd (head t) (\<lambda>n. n\<lparr>count_expandable := count_expandable n + 1\<rparr>) sb;
         s \<leftarrow> upd (head t) (\<lambda>n. n\<lparr>count_expanded := count_expanded n + 1\<rparr>) s;
         nd \<leftarrow> node_at s x;
         filter_up t (parent nd) s
       }
       else Some sb) = Some s2" "same_shape sb s2"
      "\<forall>a. vis s2 a = (vis sb a \<or> (keep (data nd) \<and> a \<in> set ps))"
    by blast
  have run: "filter_loop t keep \<lparr>node = x, skip_current_children = b\<rparr> s =
       (pre_inc s2 \<lparr>node = x, skip_current_children = b\<rparr> \<bind>
          (\<lambda>r. case r of Inl e \<Rightarrow> Some (Inl e) | Inr it' \<Rightarrow> filter_loop t keep it' s2))"
    apply (subst filter_loop.simps)
    apply (simp only: iterator_base.simps xf not_False_eq_True if_True nd Option.bind.bind_lunit
        e1 na(1) Let_def e2 s2(1))
    done
  have "vis s2 a = (if a = x then keep (data nd) else (vis s a \<or> (keep (data nd) \<and> a \<in> set ps)))" for a
    using s2(3) vb[of a] by auto
  with same_shape_trans[OF ssab s2(2)] run show ?thesis by blast
qed

lemma successively_mid: "successively P (xs @ x # y # zs) \<Longrightarrow> P x y"
  by (induction xs) (auto simp: successively_Cons)

lemma filter_loop_sweep:
  assumes wf: "wf_tree t s0 ts"
  shows "pre_forest ts = xs @ rest \<Longrightarrow> same_shape s0 sk \<Longrightarrow>
     (\<forall>u \<in> set (subtrees_forest ts). addr u \<in> set xs \<longrightarrow>
        vis sk (addr u) = (\<exists>d \<in> set (pre u) \<inter> set xs. holds keep s0 d)) \<Longrightarrow>
     \<exists>s'. filter_loop t keep \<lparr>node = hd (rest @ [feet t]), skip_current_children = False\<rparr> sk
             = Some (Inr s') \<and> same_shape s0 s' \<and>
          (\<forall>u \<in> set (subtrees_forest ts).
             vis s' (addr u) = (\<exists>d \<in> set (pre u). holds keep s0 d))"
proof (induction rest arbitrary: xs sk)
  case Nil
  have "filter_loop t keep \<lparr>node = feet t, skip_current_children = False\<rparr> sk = Some (Inr sk)"
    by (subst filter_loop.simps) simp
  moreover have "vis sk (addr u) = (\<exists>d \<in> set (pre u). holds keep s0 d)"
    if u: "u \<in> set (subtrees_forest ts)" for u
  proof -
    from subtrees_forest_pre(1)[OF u] Nil.prems(1) have sub: "set (pre u) \<subseteq> set xs" by simp
    then have "addr u \<in> set xs" using addr_in_pre[of u] by blast
    with Nil.prems(3) u have "vis sk (addr u) = (\<exists>d \<in> set (pre u) \<inter> set xs. holds keep s0 d)"
      by blast
    moreover from sub have "set (pre u) \<inter> set xs = set (pre u)" by blast
    ultimately show ?thesis by simp
  qed
  ultimately show ?case using Nil.prems(2) by simp
next
  case (Cons x rest)
  note l = Cons.prems(1)
  from wf_tree_same[OF Cons.prems(2) wf] have wfk: "wf_tree t sk ts" .
  from wf have d: "distinct (head t # feet t # pre_forest ts)" by (simp add: wf_tree_def)
  from l have xin: "x \<in> set (pre_forest ts)" by simp
  with d have xh: "x \<noteq> head t" and xf: "x \<noteq> feet t" by auto
  from d have dp: "distinct (pre_forest ts)" by simp
  from wfk have ch: "wf_chain sk 0 (head t) (feet t) ts" by (simp add: wf_tree_def)
  have "pchain sk 0 []" by simp
  from pchain_wf(2)[OF ch dp xin this] obtain nd where nd: "node_at sk x = Some nd"
    "pchain sk (parent nd) (ancs_forest ts x)" by auto
  from wfk obtain hn where hn: "node_at sk (head t) = Some hn" by (rule wf_tree_sentinels)
  from filter_body[OF hn nd xh xf, of keep False] obtain s2 where s2: "same_shape sk s2"
    "\<And>a. vis s2 a = (if a = x then keep (data nd)
        else (vis sk a \<or> (keep (data nd) \<and> a \<in> set (ancs_forest ts x))))"
    "filter_loop t keep \<lparr>node = x, skip_current_children = False\<rparr> sk =
       (pre_inc s2 \<lparr>node = x, skip_current_children = False\<rparr> \<bind>
          (\<lambda>r. case r of Inl e \<Rightarrow> Some (Inl e) | Inr it' \<Rightarrow> filter_loop t keep it' s2))"
    by blast
  have ss2: "same_shape s0 s2" using same_shape_trans[OF Cons.prems(2) s2(1)] .
  from wf_tree_same[OF ss2 wf] have wf2: "wf_tree t s2 ts" .
  obtain y zs where yz: "rest @ [feet t] = y # zs" by (cases "rest @ [feet t]") auto
  from wf_tree_succ[OF wf2] l yz have "successively (step s2) (xs @ x # y # zs)" by simp
  then have "step s2 x y" by (rule successively_mid)
  then have inc: "pre_inc s2 \<lparr>node = x, skip_current_children = False\<rparr>
      = Some (Inr \<lparr>node = hd (rest @ [feet t]), skip_current_children = False\<rparr>)"
    using yz by (simp add: step_def)
  have kx: "holds keep s0 x = keep (data nd)"
  proof -
    from same_shape_dat[OF Cons.prems(2), of x] nd(1) have "dat s0 x = Some (data nd)"
      by (simp add: dat_def)
    then show ?thesis by (simp add: holds_def)
  qed
  have inv: "\<forall>u \<in> set (subtrees_forest ts). addr u \<in> set (xs @ [x]) \<longrightarrow>
        vis s2 (addr u) = (\<exists>d \<in> set (pre u) \<inter> set (xs @ [x]). holds keep s0 d)"
  proof (intro ballI impI)
    fix u assume u: "u \<in> set (subtrees_forest ts)" and au: "addr u \<in> set (xs @ [x])"
    show "vis s2 (addr u) = (\<exists>d \<in> set (pre u) \<inter> set (xs @ [x]). holds keep s0 d)"
    proof (cases "addr u = x")
      case True
      with l have "pre_forest ts = xs @ addr u # rest" by simp
      from block_prefix[OF dp u this] have "set (pre u) \<inter> set xs = {}" .
      moreover have "x \<in> set (pre u)" using True addr_in_pre[of u] by simp
      ultimately have "set (pre u) \<inter> set (xs @ [x]) = {x}" by auto
      then show ?thesis using True s2(2)[of x] kx by simp
    next
      case False
      with au have axs: "addr u \<in> set xs" by simp
      with Cons.prems(3) u have old: "vis sk (addr u) = (\<exists>d \<in> set (pre u) \<inter> set xs. holds keep s0 d)"
        by blast
      have mem: "addr u \<in> set (ancs_forest ts x) \<longleftrightarrow> x \<in> set (pre_forest (kids u))"
        using dp u by (rule ancs_forest_member)
      have xu: "x \<in> set (pre u) \<longleftrightarrow> x \<in> set (pre_forest (kids u))"
        using False by (auto simp: pre_kids[of u])
      have "vis s2 (addr u) = (vis sk (addr u) \<or> (keep (data nd) \<and> x \<in> set (pre u)))"
        using s2(2)[of "addr u"] False mem xu by simp
      also have "\<dots> = (\<exists>d \<in> set (pre u) \<inter> set (xs @ [x]). holds keep s0 d)"
        using old kx by auto
      finally show ?thesis .
    qed
  qed
  from l have l': "pre_forest ts = (xs @ [x]) @ rest" by simp
  from Cons.IH[OF l' ss2 inv] obtain s' where s':
    "filter_loop t keep \<lparr>node = hd (rest @ [feet t]), skip_current_children = False\<rparr> s2
       = Some (Inr s')" "same_shape s0 s'"
    "\<forall>u \<in> set (subtrees_forest ts). vis s' (addr u) = (\<exists>d \<in> set (pre u). holds keep s0 d)"
    by blast
  have "filter_loop t keep \<lparr>node = hd ((x # rest) @ [feet t]), skip_current_children = False\<rparr> sk
      = Some (Inr s')"
    using s2(3) inc s'(1) by simp
  with s'(2,3) show ?case by blast
qed

lemma subtrees_trans: "u \<in> set (subtrees t) \<Longrightarrow> v \<in> set (subtrees u) \<Longrightarrow> v \<in> set (subtrees t)"
proof (induction t)
  case (RNode a cs)
  show ?case
  proof (cases "u = RNode a cs")
    case True
    with RNode.prems(2) show ?thesis by simp
  next
    case False
    with RNode.prems(1) obtain c where c: "c \<in> set cs" "u \<in> set (subtrees c)" by auto
    from RNode.IH[OF c RNode.prems(2)] c(1) show ?thesis by auto
  qed
qed

lemma subtrees_forest_trans:
  "u \<in> set (subtrees_forest ts) \<Longrightarrow> v \<in> set (subtrees u) \<Longrightarrow> v \<in> set (subtrees_forest ts)"
  by (auto simp: subtrees_forest_def dest: subtrees_trans)

text \<open>
  Claim C8.  On a well-formed tree \<^verbatim>\<open>filter(predicate)\<close> returns, leaves the links and the
  values of all nodes as they were, and sets the visibility flag of every node to the truth of
  "the predicate holds of the value of this node or of the value of one of its descendants":
  the flag is the predicate's verdict on the node, except that every ancestor of a visible
  node is made visible whatever the predicate says of it.  Hence a visible node never has an
  invisible ancestor.
\<close>

theorem filter_visibility:
  assumes wf: "wf_tree t s ts"
  shows "\<exists>r s'. filter_tree t keep s = Some (Inr (r, s')) \<and> same_shape s s' \<and>
     wf_tree t s' ts \<and>
     (\<forall>u \<in> set (subtrees_forest ts).
        vis s' (addr u) = (\<exists>d \<in> set (pre u). holds keep s d)) \<and>
     (\<forall>u \<in> set (subtrees_forest ts). \<forall>v \<in> set (subtrees u).
        vis s' (addr v) \<longrightarrow> vis s' (addr u))"
proof -
  from wf obtain hn where hn: "node_at s (head t) = Some hn"
    "next_sibling hn = first_addr (feet t) ts" "head t \<noteq> 0"
    by (rule wf_tree_sentinels)
  let ?h1 = "hn\<lparr>count_expandable := 0\<rparr>"
  let ?s1 = "put (head t) ?h1 s"
  let ?s2 = "put (head t) (?h1\<lparr>count_expanded := 0\<rparr>) ?s1"
  have ss1: "same_shape s ?s1" by (rule same_shape_put[OF hn(1)]) (simp_all add: links_def)
  have h1: "node_at ?s1 (head t) = Some ?h1" using hn(3) by (simp add: node_at_put)
  have ss2: "same_shape ?s1 ?s2" by (rule same_shape_put[OF h1]) (simp_all add: links_def)
  have ss: "same_shape s ?s2" using same_shape_trans[OF ss1 ss2] .
  have h2: "node_at ?s2 (head t) = Some (?h1\<lparr>count_expanded := 0\<rparr>)"
    using hn(3) by (simp add: node_at_put)
  have bg: "begin_tree t ?s2 = Some \<lparr>node = hd (pre_forest ts @ [feet t]), skip_current_children = False\<rparr>"
  proof (cases ts)
    case Nil
    then show ?thesis using h2 hn(2) by (simp add: begin_tree_def)
  next
    case (Cons c cs)
    then show ?thesis using h2 hn(2) by (simp add: begin_tree_def pre_kids[of c])
  qed
  have "pre_forest ts = [] @ pre_forest ts" by simp
  from filter_loop_sweep[OF wf this ss, of keep] obtain s' where s':
    "filter_loop t keep \<lparr>node = hd (pre_forest ts @ [feet t]), skip_current_children = False\<rparr> ?s2
       = Some (Inr s')" "same_shape s s'"
    "\<forall>u \<in> set (subtrees_forest ts). vis s' (addr u) = (\<exists>d \<in> set (pre u). holds keep s d)"
    by auto
  from same_shape_node[OF s'(2) hn(1)] obtain h' where h': "node_at s' (head t) = Some h'"
    by blast
  have run: "filter_tree t keep s = Some (Inr (count_expanded h', s'))"
    using hn(1) h1 bg s'(1) h' by (simp add: filter_tree_def upd_Some)
  have up: "vis s' (addr v) \<longrightarrow> vis s' (addr u)"
    if u: "u \<in> set (subtrees_forest ts)" and v: "v \<in> set (subtrees u)" for u v
  proof
    assume "vis s' (addr v)"
    moreover from subtrees_forest_trans[OF u v] have "v \<in> set (subtrees_forest ts)" .
    ultimately obtain d where d: "d \<in> set (pre v)" "holds keep s d" using s'(3) by blast
    from subtrees_pre[OF v] d(1) have "d \<in> set (pre u)" by auto
    with d(2) s'(3) u show "vis s' (addr u)" by blast
  qed
  from run s'(2) wf_tree_same[OF s'(2) wf] s'(3) up show ?thesis by blast
qed

theorem filter_visibility_witness:
  "wf_tree ex_tree ex_store ex_shape \<and>
   (\<exists>r s'. filter_tree ex_tree (\<lambda>x. x = 7) ex_store = Some (Inr (r, s')) \<and>
      vis s' 4 \<and> vis s' 7 \<and> \<not> vis s' 3 \<and> \<not> vis s' 6 \<and> \<not> vis s' 5)"
proof -
  have wf: "wf_tree ex_tree ex_store ex_shape" by code_simp
  let ?keep = "\<lambda>x::nat. x = 7"
  from filter_visibility[OF wf, of ?keep] obtain r s' where
    run: "filter_tree ex_tree ?keep ex_store = Some (Inr (r, s'))" and
    v: "\<forall>u \<in> set (subtrees_forest ex_shape).
          vis s' (addr u) = (\<exists>d \<in> set (pre u). holds ?keep ex_store d)"
    by blast
  have m: "RNode 4 [RNode 6 [], RNode 7 []] \<in> set (subtrees_forest ex_shape)"
    "RNode 7 [] \<in> set (subtrees_forest ex_shape)" "RNode 3 [] \<in> set (subtrees_forest ex_shape)"
    "RNode 6 [] \<in> set (subtrees_forest ex_shape)" "RNode 5 [] \<in> set (subtrees_forest ex_shape)"
    by code_simp+
  have k: "holds ?keep ex_store 7" "\<not> holds ?keep ex_store 3" "\<not> holds ?keep ex_store 6"
    "\<not> holds ?keep ex_store 5"
    by code_simp+
  from v m(1) k(1) have "vis s' 4" by auto
  moreover from v m(2) k(1) have "vis s' 7" by auto
  moreover from v m(3) k(2) have "\<not> vis s' 3" by auto
  moreover from v m(4) k(3) have "\<not> vis s' 6" by auto
  moreover from v m(5) k(4) have "\<not> vis s' 5" by auto
  ultimately show ?thesis using wf run by blast
qed

section \<open>Sorting a sibling range\<close>

lemma ms_insert_ins:
  "\<forall>a \<in> set (n # ms). node_at s a \<noteq> None \<Longrightarrow>
     ms_insert s cmp n ms = Some (ins (below cmp s) n ms)"
  by (induction ms) (auto simp: below_def dat_def)

lemma set_ins [simp]: "set (ins lt n ms) = insert n (set ms)"
  by (induction ms) auto

lemma distinct_ins: "distinct ms \<Longrightarrow> n \<notin> set ms \<Longrightarrow> distinct (ins lt n ms)"
  by (induction ms) auto

lemma below_swo:
  assumes "strict_weak_order cmp"
  shows "\<not> below cmp s a a" "below cmp s a b \<Longrightarrow> below cmp s b c \<Longrightarrow> below cmp s a c"
    "below cmp s a b \<Longrightarrow> dat s c \<noteq> None \<Longrightarrow> below cmp s a c \<or> below cmp s c b"
  using assms unfolding strict_weak_order_def below_def
  by (auto split: option.splits; blast)+

lemma sorted_ins:
  assumes irr: "\<And>a. \<not> lt a a" and tr: "\<And>a b c. lt a b \<Longrightarrow> lt b c \<Longrightarrow> lt a c"
  shows "sorted_wrt (\<lambda>a b. \<not> lt b a) ms \<Longrightarrow> sorted_wrt (\<lambda>a b. \<not> lt b a) (ins lt n ms)"
proof (induction ms)
  case Nil
  then show ?case by simp
next
  case (Cons m ms)
  from Cons.prems have s: "\<forall>x \<in> set ms. \<not> lt x m" "sorted_wrt (\<lambda>a b. \<not> lt b a) ms" by simp_all
  show ?case
  proof (cases "lt n m")
    case True
    have "\<not> lt x n" if "x \<in> set (m # ms)" for x
    proof
      assume "lt x n"
      then have "lt x m" using True by (rule tr)
      with that s(1) irr show False by auto
    qed
    with True Cons.prems show ?thesis by simp
  next
    case False
    with s Cons.IH show ?thesis by simp
  qed
qed

lemma stable_ins:
  assumes neg: "\<And>a b c. lt a b \<Longrightarrow> c \<in> D \<Longrightarrow> lt a c \<or> lt c b"
    and dom: "set ms \<subseteq> D" "c \<in> D"
  shows "sorted_wrt (\<lambda>a b. \<not> lt b a) ms \<Longrightarrow>
     filter (equivalent lt c) (ins lt n ms) = filter (equivalent lt c) (ms @ [n])"
  using dom(1)
proof (induction ms)
  case Nil
  then show ?case by simp
next
  case (Cons m ms)
  from Cons.prems have s: "\<forall>x \<in> set ms. \<not> lt x m" "sorted_wrt (\<lambda>a b. \<not> lt b a) ms"
    and d: "set ms \<subseteq> D" "m \<in> D" by simp_all
  show ?case
  proof (cases "lt n m")
    case False
    with Cons.IH[OF s(2) d(1)] show ?thesis by simp
  next
    case True
    show ?thesis
    proof (cases "equivalent lt c n")
      case False
      with True show ?thesis by simp
    next
      case en: True
      have "\<not> equivalent lt c x" if x: "x \<in> set (m # ms)" for x
      proof
        assume ex: "equivalent lt c x"
        from x d have xd: "x \<in> D" by auto
        have "lt n x"
        proof (cases "x = m")
          case True
          with \<open>lt n m\<close> show ?thesis by simp
        next
          case False
          with x s(1) have "\<not> lt x m" by simp
          with neg[OF \<open>lt n m\<close> xd] show ?thesis by blast
        qed
        from neg[OF this dom(2)] have "lt n c \<or> lt c x" .
        with en ex show False by (simp add: equivalent_def)
      qed
      then have e: "filter (equivalent lt c) (m # ms) = []" by (simp only: filter_empty_conv) blast
      have "filter (equivalent lt c) (ins lt n (m # ms)) = n # filter (equivalent lt c) (m # ms)"
        using True en by simp
      moreover have "filter (equivalent lt c) ((m # ms) @ [n]) = filter (equivalent lt c) (m # ms) @ [n]"
        using en by simp
      ultimately show ?thesis unfolding e by simp
    qed
  qed
qed

lemma isort_snoc: "isort lt (ns @ [n]) = ins lt n (isort lt ns)"
  by (simp add: isort_def)

lemma isort_props:
  assumes irr: "\<And>a. \<not> lt a a" and tr: "\<And>a b c. lt a b \<Longrightarrow> lt b c \<Longrightarrow> lt a c"
    and neg: "\<And>a b c. lt a b \<Longrightarrow> c \<in> D \<Longrightarrow> lt a c \<or> lt c b"
  shows "distinct ns \<Longrightarrow> set ns \<subseteq> D \<Longrightarrow>
     distinct (isort lt ns) \<and> set (isort lt ns) = set ns \<and>
     sorted_wrt (\<lambda>a b. \<not> lt b a) (isort lt ns) \<and>
     (\<forall>c \<in> D. filter (equivalent lt c) (isort lt ns) = filter (equivalent lt c) ns)"
proof (induction ns rule: rev_induct)
  case Nil
  then show ?case by (simp add: isort_def)
next
  case (snoc n ns)
  let ?ms = "isort lt ns"
  from snoc have p: "distinct ?ms" "set ?ms = set ns" "sorted_wrt (\<lambda>a b. \<not> lt b a) ?ms"
    "\<And>c. c \<in> D \<Longrightarrow> filter (equivalent lt c) ?ms = filter (equivalent lt c) ns"
    by simp_all
  from snoc.prems have n: "n \<notin> set ns" "n \<in> D" "set ns \<subseteq> D" by simp_all
  have st: "filter (equivalent lt c) (ins lt n ?ms) = filter (equivalent lt c) (ns @ [n])"
    if cd: "c \<in> D" for c
  proof -
    from p(2) n(3) have md: "set ?ms \<subseteq> D" by simp
    have "filter (equivalent lt c) (ins lt n ?ms) = filter (equivalent lt c) (?ms @ [n])"
      using neg md cd p(3) by (rule stable_ins)
    with p(4)[OF cd] show ?thesis by simp
  qed
  have "distinct (ins lt n ?ms)" using p(1,2) n(1) by (simp add: distinct_ins)
  moreover have "set (ins lt n ?ms) = set (ns @ [n])" using p(2) by simp
  moreover have "sorted_wrt (\<lambda>a b. \<not> lt b a) (ins lt n ?ms)" using irr tr p(3) by (rule sorted_ins)
  ultimately show ?case unfolding isort_snoc using st by blast
qed

lemma isort_stable_sorted:
  assumes irr: "\<And>a. \<not> lt a a" and tr: "\<And>a b c. lt a b \<Longrightarrow> lt b c \<Longrightarrow> lt a c"
    and neg: "\<And>a b c. lt a b \<Longrightarrow> c \<in> D \<Longrightarrow> lt a c \<or> lt c b"
    and ns: "distinct ns" "set ns \<subseteq> D"
  shows "stable_sorted lt ns (isort lt ns)"
proof -
  have "distinct (isort lt ns) \<and> set (isort lt ns) = set ns \<and>
     sorted_wrt (\<lambda>a b. \<not> lt b a) (isort lt ns) \<and>
     (\<forall>c \<in> D. filter (equivalent lt c) (isort lt ns) = filter (equivalent lt c) ns)"
  proof (rule isort_props)
    show "\<not> lt a a" for a by (rule irr)
    show "lt a b \<Longrightarrow> lt b c \<Longrightarrow> lt a c" for a b c by (rule tr)
    show "lt a b \<Longrightarrow> c \<in> D \<Longrightarrow> lt a c \<or> lt c b" for a b c by (rule neg)
  qed (fact ns)+
  then have p: "distinct (isort lt ns)" "set (isort lt ns) = set ns"
    "sorted_wrt (\<lambda>a b. \<not> lt b a) (isort lt ns)"
    "\<forall>c \<in> D. filter (equivalent lt c) (isort lt ns) = filter (equivalent lt c) ns"
    by blast+
  from p(4) ns(2) have "\<forall>c \<in> set ns. filter (equivalent lt c) (isort lt ns) = filter (equivalent lt c) ns"
    by blast
  with p(1-3) show ?thesis unfolding stable_sorted_def by blast
qed

lemma succ_in_notin: "a \<notin> set xs \<Longrightarrow> succ_in d xs a = d"
  by (induction xs) auto

lemma hd_snoc2: "hd (xs @ y # zs) = hd (xs @ [y])"
  by (cases xs) simp_all

lemma succ_in_snoc: "succ_in d (xs @ [y]) a = (if a \<in> set xs then succ_in y xs a else d)"
  by (induction xs) (auto simp: succ_in_notin hd_snoc2[of _ _ "[d]"])

lemma sib_range_nodes: "sib_range s par p nx ns \<Longrightarrow> a \<in> set ns \<Longrightarrow>
    \<exists>nd. node_at s a = Some nd \<and> parent nd = par"
  by (induction ns arbitrary: p) (auto split: option.splits)

lemma sort_collect_range:
  "sib_range s par p nx ns \<Longrightarrow> nx \<notin> set ns \<Longrightarrow> \<forall>a \<in> set acc. node_at s a \<noteq> None \<Longrightarrow>
   node it = hd (ns @ [nx]) \<Longrightarrow> node to = nx \<Longrightarrow>
   sort_collect s cmp it to acc = Some (foldl (\<lambda>acc n. ins (below cmp s) n acc) acc ns)"
proof (induction ns arbitrary: p acc it)
  case Nil
  then show ?case by (subst sort_collect.simps) simp
next
  case (Cons a as)
  from Cons.prems(1) obtain nd where nd: "node_at s a = Some nd"
    "next_sibling nd = hd (as @ [nx])" "sib_range s par a nx as"
    by (auto split: option.splits)
  from nd(1) have a0: "a \<noteq> 0" by (rule node_at_nonzero)
  from Cons.prems(2) have ne: "a \<noteq> nx" "nx \<notin> set as" by auto
  have i: "ms_insert s cmp a acc = Some (ins (below cmp s) a acc)"
    using nd(1) Cons.prems(3) by (intro ms_insert_ins) auto
  have inc: "sib_inc s it = Some (it\<lparr>node := hd (as @ [nx])\<rparr>)"
    using Cons.prems(4) nd a0 by (simp add: sib_inc_def)
  have acc': "\<forall>b \<in> set (ins (below cmp s) a acc). node_at s b \<noteq> None"
    using Cons.prems(3) nd(1) by simp
  have "sort_collect s cmp (it\<lparr>node := hd (as @ [nx])\<rparr>) to (ins (below cmp s) a acc)
      = Some (foldl (\<lambda>acc n. ins (below cmp s) n acc) (ins (below cmp s) a acc) as)"
    using nd(3) ne(2) acc' _ Cons.prems(5) by (rule Cons.IH) simp
  then show ?case
    using Cons.prems(4,5) ne(1) i inc by (subst sort_collect.simps) simp
qed

text \<open>The relinking loop, in closed form.\<close>

lemma sort_link_closed:
  "distinct (prev # xs) \<Longrightarrow> \<forall>a \<in> set xs. node_at s a \<noteq> None \<Longrightarrow>
   prev \<noteq> 0 \<longrightarrow> node_at s prev \<noteq> None \<Longrightarrow>
   \<exists>s'. sort_link xs prev s = Some (last (prev # xs), s') \<and>
     (\<forall>a. node_at s' a = map_option
        (\<lambda>nd. nd\<lparr>prev_sibling := succ_in (prev_sibling nd) (rev (prev # xs)) a,
                 next_sibling := succ_in (next_sibling nd) (prev # xs) a\<rparr>) (node_at s a))"
proof (induction xs arbitrary: prev s)
  case Nil
  have "map_option (\<lambda>nd. nd\<lparr>prev_sibling := prev_sibling nd, next_sibling := next_sibling nd\<rparr>)
     (node_at s a) = node_at s a" for a
    by (cases "node_at s a") simp_all
  then show ?case by (simp cong: if_cong)
next
  case (Cons n ns)
  from Cons.prems(2) obtain nn where nn: "node_at s n = Some nn" by auto
  from nn have n0: "n \<noteq> 0" by (rule node_at_nonzero)
  from Cons.prems(1) have d: "prev \<noteq> n" "prev \<notin> set ns" "n \<notin> set ns" "distinct ns" by auto
  let ?s1 = "put n (nn\<lparr>prev_sibling := prev\<rparr>) s"
  define s2 where "s2 = (if prev \<noteq> 0
      then put prev ((the (node_at s prev))\<lparr>next_sibling := n\<rparr>) ?s1 else ?s1)"
  have e2: "(if prev \<noteq> 0 then upd prev (\<lambda>x. x\<lparr>next_sibling := n\<rparr>) ?s1 else Some ?s1) = Some s2"
  proof (cases "prev = 0")
    case True
    then show ?thesis by (simp add: s2_def)
  next
    case False
    with Cons.prems(3) obtain pn where "node_at s prev = Some pn" by auto
    then show ?thesis using False d(1) by (simp add: s2_def upd_Some node_at_put)
  qed
  have n2: "node_at s2 a = map_option
      (\<lambda>nd. nd\<lparr>prev_sibling := (if a = n then prev else prev_sibling nd),
               next_sibling := (if a = prev then n else next_sibling nd)\<rparr>) (node_at s a)" for a
  proof (cases "prev = 0")
    case True
    then show ?thesis using nn n0 by (cases "node_at s a") (auto simp: s2_def node_at_put)
  next
    case False
    with Cons.prems(3) obtain pn where "node_at s prev = Some pn" by auto
    then show ?thesis using False nn n0 d(1)
      by (cases "node_at s a") (auto simp: s2_def node_at_put)
  qed
  have ex: "\<forall>a \<in> set ns. node_at s2 a \<noteq> None" using Cons.prems(2) by (auto simp: n2)
  have exn: "n \<noteq> 0 \<longrightarrow> node_at s2 n \<noteq> None" using nn by (simp add: n2)
  have dn: "distinct (n # ns)" using d by simp
  from Cons.IH[OF dn ex exn] obtain s' where s': "sort_link ns n s2 = Some (last (n # ns), s')"
    "\<And>a. node_at s' a = map_option
        (\<lambda>nd. nd\<lparr>prev_sibling := succ_in (prev_sibling nd) (rev (n # ns)) a,
                 next_sibling := succ_in (next_sibling nd) (n # ns) a\<rparr>) (node_at s2 a)"
    by blast
  have run: "sort_link (n # ns) prev s = Some (last (prev # n # ns), s')"
    using nn e2 s'(1) by (simp add: upd_Some)
  have "node_at s' a = map_option
        (\<lambda>nd. nd\<lparr>prev_sibling := succ_in (prev_sibling nd) (rev (prev # n # ns)) a,
                 next_sibling := succ_in (next_sibling nd) (prev # n # ns) a\<rparr>) (node_at s a)" for a
  proof (cases "node_at s a")
    case None
    then show ?thesis by (simp add: s' n2)
  next
    case (Some nd)
    have nx: "succ_in (if a = prev then n else next_sibling nd) (n # ns) a
        = succ_in (next_sibling nd) (prev # n # ns) a"
      using d by (auto simp: succ_in_notin)
    have "succ_in (if a = n then prev else prev_sibling nd) (rev ns @ [n]) a
        = succ_in (prev_sibling nd) ((rev ns @ [n]) @ [prev]) a"
      using d by (simp only: succ_in_snoc[of _ "rev ns @ [n]"]) (auto simp: succ_in_snoc succ_in_notin)
    then have pv: "succ_in (if a = n then prev else prev_sibling nd) (rev (n # ns)) a
        = succ_in (prev_sibling nd) (rev (prev # n # ns)) a" by simp
    have "node_at s' a = Some (nd\<lparr>prev_sibling := succ_in (if a = n then prev else prev_sibling nd) (rev (n # ns)) a,
        next_sibling := succ_in (if a = prev then n else next_sibling nd) (n # ns) a\<rparr>)"
      unfolding s' n2 Some by (simp del: succ_in.simps rev.simps)
    also have "\<dots> = Some (nd\<lparr>prev_sibling := succ_in (prev_sibling nd) (rev (prev # n # ns)) a,
        next_sibling := succ_in (next_sibling nd) (prev # n # ns) a\<rparr>)"
      by (simp only: nx pv)
    finally show ?thesis by (simp only: Some option.map)
  qed
  with run show ?case by blast
qed

lemma succ_in_last: "distinct xs \<Longrightarrow> xs \<noteq> [] \<Longrightarrow> succ_in d xs (last xs) = d"
  by (induction xs) (auto simp: succ_in_notin)

lemma succ_in_inner:
  "a \<in> set xs \<Longrightarrow> a \<noteq> last xs \<Longrightarrow> succ_in d xs a = succ_in d' xs a"
proof (induction xs)
  case Nil
  then show ?case by simp
next
  case (Cons x xs)
  then show ?case by (cases xs) auto
qed

lemma succ_in_append_notin: "a \<notin> set us \<Longrightarrow> succ_in d (us @ ys) a = succ_in d ys a"
  by (induction us) auto

lemma sib_range_first:
  "sib_range s par p nx ns \<Longrightarrow> ns \<noteq> [] \<Longrightarrow>
     \<exists>nd. node_at s (hd ns) = Some nd \<and> prev_sibling nd = p \<and> parent nd = par"
  by (cases ns) (auto split: option.splits)

lemma sib_range_last:
  "sib_range s par p nx ns \<Longrightarrow> ns \<noteq> [] \<Longrightarrow>
     \<exists>nd. node_at s (last ns) = Some nd \<and> next_sibling nd = nx \<and> parent nd = par"
proof (induction ns arbitrary: p)
  case Nil
  then show ?case by simp
next
  case (Cons a as)
  then show ?case by (cases as) (auto split: option.splits)
qed

text \<open>A store whose sibling pointers follow a list holds the list as a sibling range.\<close>

lemma sib_range_of_succ:
  "\<forall>a \<in> set xs. \<exists>nd d d'. node_at s a = Some nd \<and> parent nd = par \<and>
       next_sibling nd = succ_in d (us @ q # xs @ [nx]) a \<and>
       prev_sibling nd = succ_in d' (rev (us @ q # xs @ [nx])) a \<Longrightarrow>
   distinct (us @ q # xs) \<Longrightarrow> nx \<notin> set xs \<Longrightarrow> sib_range s par q nx xs"
proof (induction xs arbitrary: us q)
  case Nil
  then show ?case by simp
next
  case (Cons x xs)
  from Cons.prems(1) obtain nd d d' where nd: "node_at s x = Some nd" "parent nd = par"
    "next_sibling nd = succ_in d (us @ q # (x # xs) @ [nx]) x"
    "prev_sibling nd = succ_in d' (rev (us @ q # (x # xs) @ [nx])) x"
    by auto
  from Cons.prems(2,3) have x: "x \<notin> set us" "x \<noteq> q" "x \<notin> set xs" "x \<noteq> nx" by auto
  have "succ_in d (us @ q # (x # xs) @ [nx]) x = hd (xs @ [nx])"
    using x by (simp add: succ_in_append_notin hd_snoc2[of _ _ "[d]"])
  with nd(3) have n1: "next_sibling nd = hd (xs @ [nx])" by simp
  have "rev (us @ q # (x # xs) @ [nx]) = (nx # rev xs) @ (x # q # rev us)" by simp
  then have "succ_in d' (rev (us @ q # (x # xs) @ [nx])) x = succ_in d' (x # q # rev us) x"
    using x by (simp only: succ_in_append_notin[of x "nx # rev xs"]) (simp add: succ_in_append_notin)
  with nd(4) have p1: "prev_sibling nd = q" by simp
  have "sib_range s par x nx xs"
  proof (rule Cons.IH[of "us @ [q]" x])
    show "\<forall>a \<in> set xs. \<exists>nd d d'. node_at s a = Some nd \<and> parent nd = par \<and>
       next_sibling nd = succ_in d ((us @ [q]) @ x # xs @ [nx]) a \<and>
       prev_sibling nd = succ_in d' (rev ((us @ [q]) @ x # xs @ [nx])) a"
      using Cons.prems(1) by simp
    show "distinct ((us @ [q]) @ x # xs)" using Cons.prems(2) by simp
    show "nx \<notin> set xs" using Cons.prems(3) by simp
  qed
  with nd n1 p1 show ?case by simp
qed

lemma sort_go_run:
  assumes ne: "node from \<noteq> node to"
    and col: "sort_collect s cmp from to [] = Some (nit # rest)"
    and dec: "sib_dec s to = Some (Inr it2)"
    and fnd: "node_at s (node from) = Some fnd" "prev_sibling fnd = p"
    and lnd: "node_at s (node it2) = Some lnd" "next_sibling lnd = nx"
    and eA: "(if p = 0
              then do {
                nn \<leftarrow> node_at s nit;
                if parent nn \<noteq> 0 then upd (parent nn) (\<lambda>x. x\<lparr>first_child := nit\<rparr>) s
                else Some s
              }
              else upd p (\<lambda>x. x\<lparr>next_sibling := nit\<rparr>) s) = Some sA"
    and eB: "sort_link (butlast (nit # rest)) p sA = Some (q, sB)"
    and eC1: "(if q \<noteq> 0 then upd q (\<lambda>x. x\<lparr>next_sibling := last (nit # rest)\<rparr>) sB else Some sB)
              = Some sC1"
    and eC2: "upd (last (nit # rest)) (\<lambda>x. x\<lparr>next_sibling := nx\<rparr>) sC1 = Some sC2"
    and eC3: "upd (last (nit # rest)) (\<lambda>x. x\<lparr>prev_sibling := q\<rparr>) sC2 = Some sC3"
    and eD: "(if nx = 0
              then do {
                en \<leftarrow> node_at sC3 (last (nit # rest));
                if parent en \<noteq> 0
                then upd (parent en) (\<lambda>x. x\<lparr>last_child := last (nit # rest)\<rparr>) sC3
                else Some sC3
              }
              else upd nx (\<lambda>x. x\<lparr>prev_sibling := last (nit # rest)\<rparr>) sC3) = Some sD"
  shows "sort_tree from to cmp False s = Some (Inr sD)"
  unfolding sort_tree_def
  apply (subst sort_go.simps)
  apply (simp only: if_False ne col dec fnd lnd Option.bind.bind_lunit sum.case list.case Let_def
      eA eB prod.case eC1 eC2 eC3 eD)
  done

lemma link_next:
  assumes "distinct (p # bl @ [e])" "q = last (p # bl)"
  shows "succ_in d (p # (bl @ [e]) @ [nx]) a =
     (if a = e then nx else if a = q then e
      else succ_in (if a = p then nit else d) (p # bl) a)"
proof -
  have eq: "succ_in d (p # (bl @ [e]) @ [nx]) a =
      (if a \<in> set ((p # bl) @ [e])
       then (if a \<in> set (p # bl) then succ_in e (p # bl) a else nx) else d)"
    using succ_in_snoc[of d "(p # bl) @ [e]" nx a] succ_in_snoc[of nx "p # bl" e a] by simp
  from assms(1) have d: "distinct (p # bl)" "e \<notin> set (p # bl)" by auto
  from assms(2) have qin: "q \<in> set (p # bl)" by (metis last_in_set list.distinct(1))
  consider "a = e" | "a = q" | "a \<in> set (p # bl)" "a \<noteq> q" | "a \<notin> set (p # bl)" "a \<noteq> e"
    by blast
  then show ?thesis
  proof cases
    case 1
    with d(2) show ?thesis unfolding eq by simp
  next
    case 2
    have "succ_in e (p # bl) (last (p # bl)) = e" using d(1) by (intro succ_in_last) simp_all
    with 2 qin d(2) assms(2) show ?thesis unfolding eq by auto
  next
    case 3
    with assms(2) have "a \<noteq> last (p # bl)" by simp
    from succ_in_inner[OF 3(1) this, of e "if a = p then nit else d"] 3 d(2)
    show ?thesis unfolding eq by auto
  next
    case 4
    then have "a \<noteq> p" by auto
    with 4 qin succ_in_notin[OF 4(1), of d] show ?thesis unfolding eq by auto
  qed
qed

lemma link_prev:
  assumes "q = last (p # bl)"
  shows "succ_in d (rev (p # (bl @ [e]) @ [nx])) a =
     (if a = nx then e else if a = e then q else succ_in d (rev (p # bl)) a)"
proof -
  have r: "rev (p # (bl @ [e]) @ [nx]) = nx # e # rev (p # bl)" by simp
  have "hd (rev (p # bl) @ [d]) = q"
    using assms by (simp add: hd_append hd_rev)
  then show ?thesis unfolding r by (simp del: rev.simps)
qed

lemma map_option_comp2: "map_option f (map_option g x) = map_option (\<lambda>y. f (g y)) x"
  by (cases x) simp_all

lemma sort_range_closed:
  assumes swo: "strict_weak_order cmp" and ok: "sort_range_ok s par p nx ns"
    and fr: "node from = hd ns" and tn: "node to = nx"
    and tp: "nx = 0 \<longrightarrow> parent_ptr to = par"
  shows "\<exists>s'. sort_tree from to cmp False s = Some (Inr s') \<and>
     (\<forall>a. node_at s' a = map_option (relinked par p nx (isort (below cmp s) ns) a) (node_at s a))"
proof -
  from ok have ne: "ns \<noteq> []" and dns: "distinct ns" and sr: "sib_range s par p nx ns"
    and out: "p \<notin> set ns" "nx \<notin> set ns" "par \<notin> set ns"
    and pe: "p \<noteq> 0 \<longrightarrow> node_at s p \<noteq> None"
    and pare: "p = 0 \<and> par \<noteq> 0 \<longrightarrow> node_at s par \<noteq> None"
    and nxe: "nx \<noteq> 0 \<longrightarrow> (case node_at s nx of None \<Rightarrow> False | Some n \<Rightarrow> prev_sibling n = last ns)"
    and nx0: "nx = 0 \<longrightarrow> (case node_at s par of None \<Rightarrow> False | Some n \<Rightarrow> last_child n = last ns)"
    by (simp_all add: sort_range_ok_def)
  define ms where "ms = isort (below cmp s) ns"
  have nodes: "\<exists>nd. node_at s a = Some nd \<and> parent nd = par" if "a \<in> set ns" for a
    using sr that by (rule sib_range_nodes)
  have exs: "node_at s a \<noteq> None" if "a \<in> set ns" for a
    using nodes[OF that] by auto
  have "distinct ms \<and> set ms = set ns \<and> sorted_wrt (\<lambda>a b. \<not> below cmp s b a) ms \<and>
     (\<forall>c \<in> {a. dat s a \<noteq> None}.
        filter (equivalent (below cmp s) c) ms = filter (equivalent (below cmp s) c) ns)"
    unfolding ms_def
  proof (rule isort_props)
    show "\<not> below cmp s a a" for a using swo by (rule below_swo)
    show "below cmp s a b \<Longrightarrow> below cmp s b c \<Longrightarrow> below cmp s a c" for a b c
      using swo by (rule below_swo)
    show "below cmp s a b \<Longrightarrow> c \<in> {a. dat s a \<noteq> None} \<Longrightarrow> below cmp s a c \<or> below cmp s c b"
      for a b c using below_swo(3)[OF swo, of s a b c] by simp
    show "distinct ns" by (rule dns)
    show "set ns \<subseteq> {a. dat s a \<noteq> None}" using nodes by (auto simp: dat_def)
  qed
  then have dms: "distinct ms" and sms: "set ms = set ns" by blast+
  from sms ne obtain nit rest where ms: "ms = nit # rest" by (cases ms) auto
  define e where "e = last ms"
  define bl where "bl = butlast ms"
  define q where "q = last (p # bl)"
  have msd: "ms = bl @ [e]" using ms by (simp add: e_def bl_def)
  have dl: "distinct (p # bl @ [e])" using dms out(1) sms msd by auto
  have ein: "e \<in> set ns" and blin: "set bl \<subseteq> set ns" using sms msd by auto
  have nitin: "nit \<in> set ns" using sms ms by auto
  have nit: "nit = hd (bl @ [e])" using ms msd by (metis list.sel(1))
  have qin: "q = p \<or> q \<in> set bl" unfolding q_def by (cases bl) (auto simp: last_in_set)
  have qe: "q \<noteq> e" using qin dl by auto
  have enx: "e \<noteq> nx" "e \<noteq> par" "e \<noteq> 0" using ein out nodes[OF ein] by (auto dest: node_at_nonzero)
  text \<open>collecting\<close>
  have ft: "node from \<noteq> node to" using fr tn ne out(2) by (cases ns) auto
  have col: "sort_collect s cmp from to [] = Some (nit # rest)"
  proof -
    have "sort_collect s cmp from to [] = Some (foldl (\<lambda>acc n. ins (below cmp s) n acc) [] ns)"
      using sr out(2) _ _ tn by (rule sort_collect_range) (simp_all add: fr ne)
    then show ?thesis using ms by (simp add: ms_def isort_def)
  qed
  have dec: "sib_dec s to = Some (Inr (to\<lparr>node := last ns\<rparr>))"
  proof (cases "nx = 0")
    case True
    with nx0 obtain pn where "node_at s par = Some pn" "last_child pn = last ns"
      by (auto split: option.splits)
    moreover from this(1) have "par \<noteq> 0" by (rule node_at_nonzero)
    ultimately show ?thesis using True tn tp by (simp add: sib_dec_def)
  next
    case False
    with nxe obtain n where "node_at s nx = Some n" "prev_sibling n = last ns"
      by (auto split: option.splits)
    then show ?thesis using False tn by (simp add: sib_dec_def)
  qed
  from sib_range_first[OF sr ne] fr obtain fnd where fnd: "node_at s (node from) = Some fnd"
    "prev_sibling fnd = p" by auto
  from sib_range_last[OF sr ne] obtain lnd where lnd:
    "node_at s (node (to\<lparr>node := last ns\<rparr>)) = Some lnd" "next_sibling lnd = nx" by auto
  text \<open>the link from the left neighbour, or from the parent\<close>
  from nodes[OF nitin] obtain nn where nn: "node_at s nit = Some nn" "parent nn = par" by blast
  define sA where "sA = (if p = 0
      then (if par \<noteq> 0 then put par ((the (node_at s par))\<lparr>first_child := nit\<rparr>) s else s)
      else put p ((the (node_at s p))\<lparr>next_sibling := nit\<rparr>) s)"
  have eA: "(if p = 0
              then do {
                nn \<leftarrow> node_at s nit;
                if parent nn \<noteq> 0 then upd (parent nn) (\<lambda>x. x\<lparr>first_child := nit\<rparr>) s
                else Some s
              }
              else upd p (\<lambda>x. x\<lparr>next_sibling := nit\<rparr>) s) = Some sA"
    using nn pe pare by (auto simp: sA_def upd_Some)
  have nA: "node_at sA a = map_option
      (\<lambda>nd. nd\<lparr>first_child := (if a = par \<and> p = 0 then nit else first_child nd),
               next_sibling := (if a = p then nit else next_sibling nd)\<rparr>) (node_at s a)" for a
    using pe pare
    by (cases "node_at s a") (auto simp: sA_def node_at_put dest: node_at_nonzero)
  text \<open>the loop\<close>
  have "\<exists>s'. sort_link bl p sA = Some (last (p # bl), s') \<and>
     (\<forall>a. node_at s' a = map_option
        (\<lambda>nd. nd\<lparr>prev_sibling := succ_in (prev_sibling nd) (rev (p # bl)) a,
                 next_sibling := succ_in (next_sibling nd) (p # bl) a\<rparr>) (node_at sA a))"
  proof (rule sort_link_closed)
    show "distinct (p # bl)" using dl by auto
    show "\<forall>a \<in> set bl. node_at sA a \<noteq> None" using blin exs by (auto simp: nA)
    show "p \<noteq> 0 \<longrightarrow> node_at sA p \<noteq> None" using pe by (auto simp: nA)
  qed
  then obtain sB where eB: "sort_link (butlast (nit # rest)) p sA = Some (q, sB)"
    and nB: "\<And>a. node_at sB a = map_option
        (\<lambda>nd. nd\<lparr>prev_sibling := succ_in (prev_sibling nd) (rev (p # bl)) a,
                 next_sibling := succ_in (next_sibling nd) (p # bl) a\<rparr>) (node_at sA a)"
    unfolding q_def bl_def ms by blast
  have exB: "node_at sB a \<noteq> None \<longleftrightarrow> node_at s a \<noteq> None" for a by (simp add: nB nA)
  text \<open>the last node\<close>
  have qex: "q \<noteq> 0 \<longrightarrow> node_at sB q \<noteq> None"
  proof
    assume "q \<noteq> 0"
    with qin pe blin exs have "node_at s q \<noteq> None" by auto
    then show "node_at sB q \<noteq> None" unfolding exB .
  qed
  define sC1 where "sC1 = (if q \<noteq> 0 then put q ((the (node_at sB q))\<lparr>next_sibling := e\<rparr>) sB else sB)"
  have eC1: "(if q \<noteq> 0 then upd q (\<lambda>x. x\<lparr>next_sibling := last (nit # rest)\<rparr>) sB else Some sB)
      = Some sC1"
    using qex by (auto simp: sC1_def upd_Some e_def ms)
  have nC1: "node_at sC1 a = map_option
      (\<lambda>nd. nd\<lparr>next_sibling := (if a = q then e else next_sibling nd)\<rparr>) (node_at sB a)" for a
    using qex by (cases "node_at sB a") (auto simp: sC1_def node_at_put dest: node_at_nonzero)
  from exs[OF ein] have "node_at sB e \<noteq> None" unfolding exB .
  then have "node_at sC1 e \<noteq> None" by (simp add: nC1)
  then obtain en1 where en1: "node_at sC1 e = Some en1" by auto
  define sC3 where "sC3 = put e (en1\<lparr>next_sibling := nx, prev_sibling := q\<rparr>)
      (put e (en1\<lparr>next_sibling := nx\<rparr>) sC1)"
  have eC2: "upd (last (nit # rest)) (\<lambda>x. x\<lparr>next_sibling := nx\<rparr>) sC1
      = Some (put e (en1\<lparr>next_sibling := nx\<rparr>) sC1)"
    using en1 by (simp add: upd_Some e_def ms)
  have eC3: "upd (last (nit # rest)) (\<lambda>x. x\<lparr>prev_sibling := q\<rparr>) (put e (en1\<lparr>next_sibling := nx\<rparr>) sC1)
      = Some sC3"
    using enx(3) by (simp add: upd_Some e_def[symmetric] ms[symmetric] node_at_put sC3_def)
  have nC3: "node_at sC3 a = map_option
      (\<lambda>nd. nd\<lparr>next_sibling := (if a = e then nx else next_sibling nd),
               prev_sibling := (if a = e then q else prev_sibling nd)\<rparr>) (node_at sC1 a)" for a
    using en1 enx(3) by (cases "node_at sC1 a") (auto simp: sC3_def node_at_put)
  have exC: "node_at sC3 a \<noteq> None \<longleftrightarrow> node_at s a \<noteq> None" for a
    by (simp add: nC3 nC1 nB nA)
  text \<open>the link from the right neighbour, or from the parent\<close>
  from nodes[OF ein] obtain en0 where en0: "node_at s e = Some en0" "parent en0 = par" by blast
  then obtain en3 where en3: "node_at sC3 e = Some en3" "parent en3 = par"
    by (auto simp: nC3 nC1 nB nA)
  have nxex: "nx \<noteq> 0 \<longrightarrow> node_at sC3 nx \<noteq> None"
  proof
    assume "nx \<noteq> 0"
    with nxe have "node_at s nx \<noteq> None" by (auto split: option.splits)
    then show "node_at sC3 nx \<noteq> None" unfolding exC .
  qed
  have parex: "nx = 0 \<longrightarrow> par \<noteq> 0 \<and> node_at sC3 par \<noteq> None"
  proof
    assume "nx = 0"
    with nx0 have "node_at s par \<noteq> None" by (auto split: option.splits)
    moreover from this have "par \<noteq> 0" by (auto dest: node_at_nonzero)
    ultimately show "par \<noteq> 0 \<and> node_at sC3 par \<noteq> None" unfolding exC by simp
  qed
  define sD where "sD = (if nx = 0
      then put par ((the (node_at sC3 par))\<lparr>last_child := e\<rparr>) sC3
      else put nx ((the (node_at sC3 nx))\<lparr>prev_sibling := e\<rparr>) sC3)"
  have eD: "(if nx = 0
              then do {
                en \<leftarrow> node_at sC3 (last (nit # rest));
                if parent en \<noteq> 0
                then upd (parent en) (\<lambda>x. x\<lparr>last_child := last (nit # rest)\<rparr>) sC3
                else Some sC3
              }
              else upd nx (\<lambda>x. x\<lparr>prev_sibling := last (nit # rest)\<rparr>) sC3) = Some sD"
    using en3 nxex parex by (auto simp: sD_def upd_Some e_def[symmetric] ms[symmetric])
  have nD: "node_at sD a = map_option
      (\<lambda>nd. nd\<lparr>last_child := (if a = par \<and> nx = 0 then e else last_child nd),
               prev_sibling := (if a = nx then e else prev_sibling nd)\<rparr>) (node_at sC3 a)" for a
    using nxex parex
    by (cases "node_at sC3 a") (auto simp: sD_def node_at_put dest: node_at_nonzero)
  have run: "sort_tree from to cmp False s = Some (Inr sD)"
    using ft col dec fnd lnd eA eB eC1 eC2 eC3 eD by (rule sort_go_run)
  have fin: "node_at sD a = map_option (relinked par p nx ms a) (node_at s a)" for a
  proof (cases "node_at s a")
    case None
    then show ?thesis by (simp add: nD nC3 nC1 nB nA)
  next
    case (Some nd)
    have nxt: "succ_in (next_sibling nd) (p # ms @ [nx]) a =
       (if a = e then nx else if a = q then e
        else succ_in (if a = p then nit else next_sibling nd) (p # bl) a)"
      unfolding msd using dl q_def by (rule link_next)
    have prv: "succ_in (prev_sibling nd) (rev (p # ms @ [nx])) a =
       (if a = nx then e else if a = e then q else succ_in (prev_sibling nd) (rev (p # bl)) a)"
      unfolding msd using q_def by (rule link_prev)
    have "node_at sD a = Some (nd\<lparr>
        prev_sibling := (if a = nx then e else if a = e then q
                         else succ_in (prev_sibling nd) (rev (p # bl)) a),
        next_sibling := (if a = e then nx else if a = q then e
                         else succ_in (if a = p then nit else next_sibling nd) (p # bl) a),
        first_child := (if a = par \<and> p = 0 then nit else first_child nd),
        last_child := (if a = par \<and> nx = 0 then e else last_child nd)\<rparr>)"
      unfolding nD nC3 nC1 nB nA Some by (simp del: succ_in.simps rev.simps)
    also have "\<dots> = Some (relinked par p nx ms a nd)"
      unfolding relinked_def nxt prv using ms by (simp add: e_def del: succ_in.simps rev.simps)
    finally show ?thesis using Some by simp
  qed
  from run fin show ?thesis unfolding ms_def by blast
qed

text \<open>
  Claim C4.  Let \<open>ns\<close> be a non-empty run of siblings under the parent \<open>par\<close>, between the
  neighbours \<open>p\<close> and \<open>nx\<close> (null where there is none), and let \<open>cmp\<close> be a strict weak ordering.
  Then \<^verbatim>\<open>sort(from, to, comp)\<close> (with \<^verbatim>\<open>deep\<close> at its default \<^verbatim>\<open>false\<close>) returns, and the store it
  leaves holds the same nodes as a run of siblings between \<open>p\<close> and \<open>nx\<close> in the order \<open>ms\<close>,
  where \<open>ms\<close> is a permutation of \<open>ns\<close> that is sorted by \<open>cmp\<close> on the values and keeps nodes
  with equivalent values in their former order.  Every sorted node keeps its parent, its
  first and last child and its value; the neighbours \<open>p\<close> and \<open>nx\<close>, or else the first and last
  child pointers of the parent, point to the new first and last node; every other node of the
  store is untouched.
\<close>

theorem sort_range_stable:
  assumes swo: "strict_weak_order cmp" and ok: "sort_range_ok s par p nx ns"
    and fr: "node from = hd ns" and tn: "node to = nx"
    and tp: "nx = 0 \<longrightarrow> parent_ptr to = par"
  shows "\<exists>ms s'. sort_tree from to cmp False s = Some (Inr s') \<and>
     ms = isort (below cmp s) ns \<and> stable_sorted (below cmp s) ns ms \<and>
     sib_range s' par p nx ms \<and>
     (\<forall>a. node_at s' a = map_option (relinked par p nx ms a) (node_at s a)) \<and>
     (\<forall>a \<in> set ns. map_option (\<lambda>n. (parent n, first_child n, last_child n, data n)) (node_at s' a)
                   = map_option (\<lambda>n. (parent n, first_child n, last_child n, data n)) (node_at s a)) \<and>
     (\<forall>a. a \<notin> set ns \<and> a \<noteq> p \<and> a \<noteq> nx \<and> a \<noteq> par \<longrightarrow> node_at s' a = node_at s a) \<and>
     (p \<noteq> 0 \<longrightarrow> map_option next_sibling (node_at s' p) = Some (hd ms)) \<and>
     (nx \<noteq> 0 \<longrightarrow> map_option prev_sibling (node_at s' nx) = Some (last ms)) \<and>
     (p = 0 \<and> par \<noteq> 0 \<longrightarrow> map_option first_child (node_at s' par) = Some (hd ms)) \<and>
     (nx = 0 \<longrightarrow> map_option last_child (node_at s' par) = Some (last ms))"
proof -
  from ok have ne: "ns \<noteq> []" and dns: "distinct ns" and sr: "sib_range s par p nx ns"
    and out: "p \<notin> set ns" "nx \<notin> set ns" "par \<notin> set ns"
    and pe: "p \<noteq> 0 \<longrightarrow> node_at s p \<noteq> None"
    and pare: "p = 0 \<and> par \<noteq> 0 \<longrightarrow> node_at s par \<noteq> None"
    and nxe: "nx \<noteq> 0 \<longrightarrow> (case node_at s nx of None \<Rightarrow> False | Some n \<Rightarrow> prev_sibling n = last ns)"
    and nx0: "nx = 0 \<longrightarrow> (case node_at s par of None \<Rightarrow> False | Some n \<Rightarrow> last_child n = last ns)"
    by (simp_all add: sort_range_ok_def)
  define ms where "ms = isort (below cmp s) ns"
  from sort_range_closed[OF swo ok fr tn tp] obtain s' where
    run: "sort_tree from to cmp False s = Some (Inr s')" and
    cl: "\<And>a. node_at s' a = map_option (relinked par p nx ms a) (node_at s a)"
    unfolding ms_def by blast
  have nodes: "\<exists>nd. node_at s a = Some nd \<and> parent nd = par" if "a \<in> set ns" for a
    using sr that by (rule sib_range_nodes)
  have st: "stable_sorted (below cmp s) ns ms"
    unfolding ms_def
  proof (rule isort_stable_sorted)
    show "\<not> below cmp s a a" for a using swo by (rule below_swo)
    show "below cmp s a b \<Longrightarrow> below cmp s b c \<Longrightarrow> below cmp s a c" for a b c
      using swo by (rule below_swo)
    show "below cmp s a b \<Longrightarrow> c \<in> {a. dat s a \<noteq> None} \<Longrightarrow> below cmp s a c \<or> below cmp s c b"
      for a b c using below_swo(3)[OF swo, of s a b c] by simp
    show "distinct ns" by (rule dns)
    show "set ns \<subseteq> {a. dat s a \<noteq> None}" using nodes by (auto simp: dat_def)
  qed
  then have dms: "distinct ms" and sms: "set ms = set ns" by (simp_all add: stable_sorted_def)
  from sms ne have mne: "ms \<noteq> []" by auto
  have range: "sib_range s' par p nx ms"
  proof (rule sib_range_of_succ[of ms s' par "[]" p nx])
    show "\<forall>a \<in> set ms. \<exists>nd d d'. node_at s' a = Some nd \<and> parent nd = par \<and>
       next_sibling nd = succ_in d ([] @ p # ms @ [nx]) a \<and>
       prev_sibling nd = succ_in d' (rev ([] @ p # ms @ [nx])) a"
    proof
      fix a assume "a \<in> set ms"
      with sms nodes obtain nd where nd: "node_at s a = Some nd" "parent nd = par" by blast
      have "node_at s' a = Some (relinked par p nx ms a nd)" by (simp add: cl nd)
      moreover have "parent (relinked par p nx ms a nd) = par"
        "next_sibling (relinked par p nx ms a nd) = succ_in (next_sibling nd) ([] @ p # ms @ [nx]) a"
        "prev_sibling (relinked par p nx ms a nd) = succ_in (prev_sibling nd) (rev ([] @ p # ms @ [nx])) a"
        using nd(2) by (simp_all add: relinked_def del: succ_in.simps rev.simps)
      ultimately show "\<exists>nd d d'. node_at s' a = Some nd \<and> parent nd = par \<and>
         next_sibling nd = succ_in d ([] @ p # ms @ [nx]) a \<and>
         prev_sibling nd = succ_in d' (rev ([] @ p # ms @ [nx])) a" by blast
    qed
    show "distinct ([] @ p # ms)" using dms out(1) sms by simp
    show "nx \<notin> set ms" using out(2) sms by simp
  qed
  have keep: "map_option (\<lambda>n. (parent n, first_child n, last_child n, data n)) (node_at s' a)
      = map_option (\<lambda>n. (parent n, first_child n, last_child n, data n)) (node_at s a)"
    if "a \<in> set ns" for a
  proof -
    from that out(3) have "a \<noteq> par" by auto
    then show ?thesis
      by (cases "node_at s a") (simp_all add: cl relinked_def del: succ_in.simps rev.simps)
  qed
  have frame: "node_at s' a = node_at s a" if "a \<notin> set ns" "a \<noteq> p" "a \<noteq> nx" "a \<noteq> par" for a
  proof (cases "node_at s a")
    case None
    then show ?thesis by (simp add: cl)
  next
    case (Some nd)
    from that sms have n: "a \<notin> set (p # ms @ [nx])" "a \<notin> set (rev (p # ms @ [nx]))" by auto
    have "succ_in (next_sibling nd) (p # ms @ [nx]) a = next_sibling nd"
      "succ_in (prev_sibling nd) (rev (p # ms @ [nx])) a = prev_sibling nd"
      using n(1) apply (rule succ_in_notin) using n(2) apply (rule succ_in_notin) done
    then have "relinked par p nx ms a nd = nd" using that(4) by (simp add: relinked_def)
    then show ?thesis by (simp add: cl Some)
  qed
  have hdms: "hd (ms @ [nx]) = hd ms" using mne by (cases ms) simp_all
  have b1: "map_option next_sibling (node_at s' p) = Some (hd ms)" if "p \<noteq> 0"
  proof -
    from that pe obtain pn where "node_at s p = Some pn" by auto
    then show ?thesis using mne by (simp add: cl relinked_def hd_append)
  qed
  have b2: "map_option prev_sibling (node_at s' nx) = Some (last ms)" if "nx \<noteq> 0"
  proof -
    from that nxe obtain nn where "node_at s nx = Some nn" by (auto split: option.splits)
    moreover have "succ_in d (rev (p # ms @ [nx])) nx = last ms" for d
      using mne by (simp add: hd_append hd_rev)
    ultimately show ?thesis by (simp add: cl relinked_def del: succ_in.simps rev.simps)
  qed
  have b3: "map_option first_child (node_at s' par) = Some (hd ms)" if "p = 0" "par \<noteq> 0"
  proof -
    from that pare obtain pn where "node_at s par = Some pn" by auto
    then show ?thesis using that by (simp add: cl relinked_def del: succ_in.simps rev.simps)
  qed
  have b4: "map_option last_child (node_at s' par) = Some (last ms)" if "nx = 0"
  proof -
    from that nx0 obtain pn where "node_at s par = Some pn" by (auto split: option.splits)
    then show ?thesis using that by (simp add: cl relinked_def del: succ_in.simps rev.simps)
  qed
  show ?thesis
  proof (intro exI conjI)
    show "sort_tree from to cmp False s = Some (Inr s')" by (rule run)
    show "ms = isort (below cmp s) ns" by (rule ms_def)
    show "stable_sorted (below cmp s) ns ms" by (rule st)
    show "sib_range s' par p nx ms" by (rule range)
    show "\<forall>a. node_at s' a = map_option (relinked par p nx ms a) (node_at s a)"
      using cl by blast
    show "\<forall>a \<in> set ns. map_option (\<lambda>n. (parent n, first_child n, last_child n, data n)) (node_at s' a)
                   = map_option (\<lambda>n. (parent n, first_child n, last_child n, data n)) (node_at s a)"
      using keep by blast
    show "\<forall>a. a \<notin> set ns \<and> a \<noteq> p \<and> a \<noteq> nx \<and> a \<noteq> par \<longrightarrow> node_at s' a = node_at s a"
      using frame by blast
    show "p \<noteq> 0 \<longrightarrow> map_option next_sibling (node_at s' p) = Some (hd ms)" using b1 by blast
    show "nx \<noteq> 0 \<longrightarrow> map_option prev_sibling (node_at s' nx) = Some (last ms)" using b2 by blast
    show "p = 0 \<and> par \<noteq> 0 \<longrightarrow> map_option first_child (node_at s' par) = Some (hd ms)"
      using b3 by blast
    show "nx = 0 \<longrightarrow> map_option last_child (node_at s' par) = Some (last ms)" using b4 by blast
  qed
qed

theorem sort_range_stable_witness:
  "strict_weak_order ((>) :: nat \<Rightarrow> nat \<Rightarrow> bool) \<and> sort_range_ok ex_store 4 0 0 [6, 7] \<and>
   (\<exists>s'. sort_tree \<lparr>node = 6, skip_current_children = False, parent_ptr = 4\<rparr> (end_children 4)
            (>) False ex_store = Some (Inr s') \<and>
         sib_range s' 4 0 0 [7, 6] \<and>
         map_option first_child (node_at s' 4) = Some 7 \<and>
         map_option last_child (node_at s' 4) = Some 6)"
proof -
  have swo: "strict_weak_order ((>) :: nat \<Rightarrow> nat \<Rightarrow> bool)"
    by (auto simp: strict_weak_order_def)
  have ok: "sort_range_ok ex_store 4 0 0 [6, 7]" by code_simp
  have ms: "isort (below (>) ex_store) [6, 7] = [7, 6]" by code_simp
  have fr: "node \<lparr>node = 6, skip_current_children = False, parent_ptr = 4\<rparr> = hd [6, 7::nat]"
    "node (end_children 4) = 0" "(0::nat) = 0 \<longrightarrow> parent_ptr (end_children 4) = 4"
    by (simp_all add: end_children_def)
  from sort_range_stable[OF swo ok fr] obtain ms s' where r:
    "sort_tree \<lparr>node = 6, skip_current_children = False, parent_ptr = 4\<rparr>
      (end_children 4) (>) False ex_store = Some (Inr s')"
    "ms = isort (below (>) ex_store) [6, 7]"
    "sib_range s' 4 0 0 ms"
    "(0::nat) = 0 \<and> (4::nat) \<noteq> 0 \<longrightarrow> map_option first_child (node_at s' 4) = Some (hd ms)"
    "(0::nat) = 0 \<longrightarrow> map_option last_child (node_at s' 4) = Some (last ms)"
    by blast
  from r(2) ms have m: "ms = [7, 6]" by simp
  from r(4,5) have "map_option first_child (node_at s' 4) = Some 7"
    "map_option last_child (node_at s' 4) = Some 6"
    unfolding m by simp_all
  with r(1,3) m swo ok show ?thesis by blast
qed

end
